theory Spec2Isabelle
  imports Complex_Main "HOL-Library.Word" "HOL-Library.Log_Nat" "HOL-Library.Sublist"
begin

section \<open>Constants\<close>

text \<open>The constants of \<^verbatim>\<open>constants.ts\<close> (repeated at the top of the Electron main
  process) that the modelled functions use.\<close>

definition EXPRESSION_DURATION_MS :: int where
  "EXPRESSION_DURATION_MS = 3000"

definition MAX_TEXT_LENGTH :: nat where
  "MAX_TEXT_LENGTH = 200"

definition DEFAULT_AUDIO_DURATION_MS :: int where
  "DEFAULT_AUDIO_DURATION_MS = 2000"

definition DEBOUNCE_MS :: nat where
  "DEBOUNCE_MS = 100"

section \<open>JavaScript numbers\<close>

text \<open>
  \<^verbatim>\<open>dataSize / byteRate\<close> and \<^verbatim>\<open>* 1000\<close> are operations on IEEE 754 binary64
  values: the exact result rounded to the nearest value with a 53-bit significand, ties to
  even. A finite double is a rational, so the rounding is written on \<open>rat\<close>. Exponent
  range (overflow, subnormals) is not modelled: every value below stays between
  \<open>2\<^sup>-\<^sup>3\<^sup>2\<close> and \<open>2\<^sup>4\<^sup>2\<close>.
\<close>

definition round_half_even :: "rat \<Rightarrow> int" where
  "round_half_even q =
     (let f = \<lfloor>q\<rfloor>; r = q - of_int f
      in if r < 1 / 2 then f else if 1 / 2 < r then f + 1 else if even f then f else f + 1)"

definition pow2 :: "int \<Rightarrow> rat" where
  "pow2 e = (if 0 \<le> e then 2 ^ nat e else 1 / 2 ^ nat (- e))"

definition ilog2 :: "rat \<Rightarrow> int" where
  \<comment> \<open>\<open>\<lfloor>log\<^sub>2 q\<rfloor>\<close> for a positive \<open>q\<close>\<close>
  "ilog2 q =
     (let (a, b) = quotient_of q;
          d = bitlen a - bitlen b
      in if pow2 d \<le> q then d else d - 1)"

definition to_double :: "rat \<Rightarrow> rat" where
  "to_double q =
     (if q = 0 then 0
      else let e = ilog2 (abs q) - 52
           in sgn q * of_int (round_half_even (abs q / pow2 e)) * pow2 e)"

definition js_div :: "rat \<Rightarrow> rat \<Rightarrow> rat" where
  "js_div x y = to_double (x / y)"

definition js_mul :: "rat \<Rightarrow> rat \<Rightarrow> rat" where
  "js_mul x y = to_double (x * y)"

definition Math_floor :: "rat \<Rightarrow> int" where
  "Math_floor x = \<lfloor>x\<rfloor>"

section \<open>DurationEstimator: \<^verbatim>\<open>getWavDuration\<close>\<close>

type_synonym byte = "8 word"

datatype js_exception = RangeError | URIError

definition readUInt32LE :: "byte list \<Rightarrow> nat \<Rightarrow> js_exception + int" where
  \<comment> \<open>\<^verbatim>\<open>Buffer.readUInt32LE(offset)\<close>: throws a RangeError unless
      \<open>offset + 4 \<le> length\<close>\<close>
  "readUInt32LE buffer offset =
     (if offset + 4 \<le> length buffer
      then Inr (uint (buffer ! offset) + uint (buffer ! (offset + 1)) * 2 ^ 8
                + uint (buffer ! (offset + 2)) * 2 ^ 16 + uint (buffer ! (offset + 3)) * 2 ^ 24)
      else Inl RangeError)"

definition isDataTag :: "byte list \<Rightarrow> nat \<Rightarrow> bool" where
  \<comment> \<open>the loop's test; the loop bound keeps \<open>i + 3\<close> inside the buffer\<close>
  "isDataTag buffer i =
     (buffer ! i = 0x64 \<and> buffer ! (i + 1) = 0x61 \<and> buffer ! (i + 2) = 0x74
      \<and> buffer ! (i + 3) = 0x61)"

function scanData :: "byte list \<Rightarrow> nat \<Rightarrow> js_exception + int" where
  \<comment> \<open>\<^verbatim>\<open>for (let i = 0; i < buffer.length - 8; i++)\<close>, from index \<open>i\<close> on; the result is
      \<^verbatim>\<open>dataSize\<close> at the loop's exit\<close>
  "scanData buffer i =
     (if int i < int (length buffer) - 8
      then (if isDataTag buffer i then readUInt32LE buffer (i + 4)
            else scanData buffer (i + 1))
      else Inr 0)"
  by pat_completeness auto
termination
  by (relation "measure (\<lambda>(buffer, i). length buffer - i)") auto

declare scanData.simps [simp del]

definition wavDurationOf :: "int \<Rightarrow> int \<Rightarrow> int" where
  \<comment> \<open>the tail of the \<^verbatim>\<open>try\<close> block, once \<^verbatim>\<open>dataSize\<close> and \<^verbatim>\<open>byteRate\<close> are read\<close>
  "wavDurationOf dataSize byteRate =
     (if dataSize = 0 \<or> byteRate = 0 then DEFAULT_AUDIO_DURATION_MS
      else Math_floor (js_mul (js_div (of_int dataSize) (of_int byteRate)) 1000))"

definition getWavDuration :: "byte list \<Rightarrow> int" where
  \<comment> \<open>\<^verbatim>\<open>voicevox.ts\<close>: reads the sample rate (unused) and the byte rate, scans, and falls
      back to the default on any exception\<close>
  "getWavDuration buffer =
     (case readUInt32LE buffer 24 of
        Inl e \<Rightarrow> DEFAULT_AUDIO_DURATION_MS
      | Inr sampleRate \<Rightarrow>
          (case readUInt32LE buffer 28 of
             Inl e \<Rightarrow> DEFAULT_AUDIO_DURATION_MS
           | Inr byteRate \<Rightarrow>
               (case scanData buffer 0 of
                  Inl e \<Rightarrow> DEFAULT_AUDIO_DURATION_MS
                | Inr dataSize \<Rightarrow> wavDurationOf dataSize byteRate)))"

definition getWavDuration_main :: "byte list \<Rightarrow> int" where
  \<comment> \<open>the Electron main process has the same function without the sample-rate read\<close>
  "getWavDuration_main buffer =
     (case readUInt32LE buffer 28 of
        Inl e \<Rightarrow> DEFAULT_AUDIO_DURATION_MS
      | Inr byteRate \<Rightarrow>
          (case scanData buffer 0 of
             Inl e \<Rightarrow> DEFAULT_AUDIO_DURATION_MS
           | Inr dataSize \<Rightarrow> wavDurationOf dataSize byteRate))"

definition u32le :: "byte list \<Rightarrow> nat \<Rightarrow> int" where
  \<comment> \<open>the little-endian value of the four bytes at an offset known to be in range\<close>
  "u32le buffer offset =
     uint (buffer ! offset) + uint (buffer ! (offset + 1)) * 2 ^ 8
     + uint (buffer ! (offset + 2)) * 2 ^ 16 + uint (buffer ! (offset + 3)) * 2 ^ 24"

definition firstDataTag :: "byte list \<Rightarrow> nat option" where
  \<comment> \<open>the first index below \<open>length - 8\<close> at which the tag stands\<close>
  "firstDataTag buffer = find (isDataTag buffer) [0..<length buffer - 8]"

definition header44 :: "byte list" where
  \<comment> \<open>a 44-byte canonical header: byte rate 1000 at offset 28, the tag at offset 36, payload
      size 1000 at offset 40, and no payload bytes\<close>
  "header44 = replicate 28 0 @ [0xE8, 0x03, 0, 0] @ replicate 4 0
              @ [0x64, 0x61, 0x74, 0x61] @ [0xE8, 0x03, 0, 0]"

definition wav45 :: "byte list" where
  \<comment> \<open>the same header with payload size 1005 and one payload byte\<close>
  "wav45 = replicate 28 0 @ [0xE8, 0x03, 0, 0] @ replicate 4 0
           @ [0x64, 0x61, 0x74, 0x61] @ [0xED, 0x03, 0, 0] @ [0]"

section \<open>Text truncation and the synthesis request\<close>

text \<open>A JavaScript string is a sequence of UTF-16 code units; \<^verbatim>\<open>length\<close> and
  \<^verbatim>\<open>slice\<close> count code units.\<close>

type_synonym code_unit = "16 word"
type_synonym js_string = "code_unit list"

definition ellipsis :: js_string where
  \<comment> \<open>the literal \<^verbatim>\<open>"..."\<close>\<close>
  "ellipsis = [0x2E, 0x2E, 0x2E]"

definition truncateText :: "js_string \<Rightarrow> js_string" where
  \<comment> \<open>\<^verbatim>\<open>text.length > MAX_TEXT_LENGTH ? text.slice(0, MAX_TEXT_LENGTH) + "..." : text\<close>\<close>
  "truncateText text =
     (if length text > MAX_TEXT_LENGTH then take MAX_TEXT_LENGTH text @ ellipsis else text)"

definition isHighSurrogate :: "code_unit \<Rightarrow> bool" where
  "isHighSurrogate c = (0xD800 \<le> c \<and> c \<le> 0xDBFF)"

definition isLowSurrogate :: "code_unit \<Rightarrow> bool" where
  "isLowSurrogate c = (0xDC00 \<le> c \<and> c \<le> 0xDFFF)"

fun isWellFormed :: "js_string \<Rightarrow> bool" where
  \<comment> \<open>no unpaired surrogate: the strings on which \<^verbatim>\<open>encodeURIComponent\<close> does not throw\<close>
  "isWellFormed [] = True"
| "isWellFormed [c] = (\<not> isLowSurrogate c \<and> \<not> isHighSurrogate c)"
| "isWellFormed (c # d # cs) =
     (if isLowSurrogate c then False
      else if isHighSurrogate c then isLowSurrogate d \<and> isWellFormed cs
      else isWellFormed (d # cs))"

definition audioQueryText :: "js_string \<Rightarrow> js_exception + js_string" where
  \<comment> \<open>the text that the \<^verbatim>\<open>audio_query\<close> request carries in its URL.
      \<^verbatim>\<open>encodeURIComponent(truncatedText)\<close> throws a URIError on an unpaired surrogate;
      otherwise the percent-encoded UTF-8 decodes to \<^verbatim>\<open>truncatedText\<close> again, so the
      encoding itself is left out\<close>
  "audioQueryText text =
     (let truncatedText = truncateText text
      in if isWellFormed truncatedText then Inr truncatedText else Inl URIError)"

definition emojiAcrossLimit :: js_string where
  \<comment> \<open>199 times the letter a, then U+1F600 as the surrogate pair D83D DE00: 201 code units\<close>
  "emojiAcrossLimit = replicate 199 0x61 @ [0xD83D, 0xDE00]"

section \<open>The \<^verbatim>\<open>/expression\<close> endpoint\<close>

datatype json =
    JNull
  | JBool bool
  | JNumber rat
  | JString string
  | JArray "json list"
  | JObject "(string \<times> json) list"

text \<open>A destructured field is \<^verbatim>\<open>undefined\<close> when the body lacks it: \<open>None\<close>.\<close>

fun truthy :: "json option \<Rightarrow> bool" where
  "truthy None = False"
| "truthy (Some JNull) = False"
| "truthy (Some (JBool b)) = b"
| "truthy (Some (JNumber n)) = (n \<noteq> 0)"
| "truthy (Some (JString s)) = (s \<noteq> [])"
| "truthy (Some (JArray xs)) = True"
| "truthy (Some (JObject kvs)) = True"

definition EXPRESSIONS :: "string list" where
  "EXPRESSIONS = [''normal'', ''smile'', ''eye_sparkle'', ''surprise'', ''shock'']"

fun includesName :: "string list \<Rightarrow> json option \<Rightarrow> bool" where
  \<comment> \<open>\<^verbatim>\<open>EXPRESSIONS.includes(name)\<close>: only a string equals a string\<close>
  "includesName names (Some (JString s)) = (s \<in> set names)"
| "includesName names other = False"

datatype motion_event =
    StartMotion int
  | StopMotion
  | Expression json json

definition notifyExpression :: "json \<Rightarrow> json \<Rightarrow> motion_event list" where
  \<comment> \<open>\<^verbatim>\<open>broadcast({ type: "expression", name, duration })\<close>\<close>
  "notifyExpression name duration = [Expression name duration]"

definition postExpression :: "(string \<rightharpoonup> json) \<Rightarrow> nat \<times> motion_event list" where
  \<comment> \<open>the handler of \<^verbatim>\<open>POST /expression\<close>: the HTTP status and the events broadcast\<close>
  "postExpression body =
     (let name = body ''name''; duration = body ''duration''
      in if \<not> truthy name \<or> \<not> includesName EXPRESSIONS name then (400, [])
         else let durationMs = (if truthy duration then the duration
                                else JNumber (of_int EXPRESSION_DURATION_MS))
              in (200, notifyExpression (the name) durationMs))"

section \<open>Failure handling of \<^verbatim>\<open>speakWithVoicevox\<close>\<close>

datatype thrown =
    Error string string "string option"
      \<comment> \<open>an \<^verbatim>\<open>Error\<close> instance: its name, its message, and the code of its
          \<^verbatim>\<open>cause\<close> if it has one\<close>
  | Value "string option"
      \<comment> \<open>any other thrown value, with its \<^verbatim>\<open>message\<close> property if it has one\<close>

datatype console = Console_log string | Console_error string

datatype completion = Returned | Threw thrown

definition str_includes :: "string \<Rightarrow> string \<Rightarrow> bool" where
  \<comment> \<open>\<^verbatim>\<open>haystack.includes(needle)\<close>\<close>
  "str_includes haystack needle = sublist needle haystack"

fun speakCatch :: "thrown \<Rightarrow> console list \<times> completion" where
  \<comment> \<open>the \<^verbatim>\<open>catch\<close> block of \<^verbatim>\<open>voicevox.ts\<close>: both tests need an \<^verbatim>\<open>Error\<close> instance
      and look at its name and its message only\<close>
  "speakCatch (Error name message cause) =
     (if name = ''AbortError'' then ([Console_log ''Speech synthesis cancelled''], Returned)
      else if str_includes message ''ECONNREFUSED''
      then ([Console_error ''VOICEVOX is not running! Please start VOICEVOX first.''], Returned)
      else ([], Threw (Error name message cause)))"
| "speakCatch (Value m) = ([], Threw (Value m))"

definition messageOf :: "thrown \<Rightarrow> string" where
  \<comment> \<open>\<^verbatim>\<open>error?.message\<close>, with the empty string for a value that has none: both are falsy\<close>
  "messageOf e =
     (case e of
        Error name message cause \<Rightarrow> message
      | Value None \<Rightarrow> []
      | Value (Some message) \<Rightarrow> message)"

definition speakCatch_main :: "thrown \<Rightarrow> console list \<times> completion" where
  \<comment> \<open>the \<^verbatim>\<open>catch\<close> block of the Electron main process: it tests the message of whatever
      was thrown, knows no cancellation and rethrows nothing (its \<^verbatim>\<open>debugLog\<close> line is
      left out)\<close>
  "speakCatch_main e =
     (if messageOf e \<noteq> [] \<and> str_includes (messageOf e) ''ECONNREFUSED''
      then ([Console_error ''VOICEVOX is not running! Please start VOICEVOX first.''], Returned)
      else ([Console_error ''Speech error:''], Returned))"

definition digit :: "nat \<Rightarrow> char" where
  "digit d = ''0123456789'' ! d"

function decimal :: "nat \<Rightarrow> string" where
  \<comment> \<open>a status code inside a template literal\<close>
  "decimal n = (if n < 10 then [digit n] else decimal (n div 10) @ [digit (n mod 10)])"
  by pat_completeness auto
termination
  by (relation "measure (\<lambda>n. n)") auto

declare decimal.simps [simp del]

definition response_ok :: "nat \<Rightarrow> bool" where
  \<comment> \<open>\<^verbatim>\<open>Response.ok\<close>: the status is in the range 200-299\<close>
  "response_ok status = (200 \<le> status \<and> status \<le> 299)"

definition audioQueryFailed :: "nat \<Rightarrow> thrown" where
  "audioQueryFailed status = Error ''Error'' (''Audio query failed: '' @ decimal status) None"

definition synthesisFailed :: "nat \<Rightarrow> thrown" where
  "synthesisFailed status = Error ''Error'' (''Synthesis failed: '' @ decimal status) None"

definition uriMalformed :: thrown where
  \<comment> \<open>what \<^verbatim>\<open>encodeURIComponent\<close> throws\<close>
  "uriMalformed = Error ''URIError'' ''URI malformed'' None"

definition fetchRefused :: thrown where
  \<comment> \<open>how the built-in \<^verbatim>\<open>fetch\<close> rejects when the connection is refused: the code is on
      the cause, the message does not name it\<close>
  "fetchRefused = Error ''TypeError'' ''fetch failed'' (Some ''ECONNREFUSED'')"

section \<open>The preemptive orchestrator of \<^verbatim>\<open>voicevox.ts\<close>\<close>

text \<open>
  \<^verbatim>\<open>speakWithVoicevox\<close> is an async function: between two \<^verbatim>\<open>await\<close>s it runs without
  interruption, and at an \<^verbatim>\<open>await\<close> any other callback may run. A call is modelled by
  the suspension point it waits at; an event resumes one call (or runs one process handler)
  up to its next suspension point. A request is named by a number, a playback process by
  the request that spawned it, a temporary file by the \<^verbatim>\<open>Date.now()\<close> stamp in its name.
\<close>

type_synonym request = nat
type_synonym path = nat

datatype stage =
    NotStarted
  | Waiting  \<comment> \<open>chained on the speech queue (queued orchestrator only)\<close>
  | AwaitQuery  \<comment> \<open>\<^verbatim>\<open>await fetch(.../audio_query...)\<close>\<close>
  | AwaitQueryJson  \<comment> \<open>\<^verbatim>\<open>await queryRes.json()\<close>\<close>
  | AwaitSynthesis  \<comment> \<open>\<^verbatim>\<open>await fetch(.../synthesis...)\<close>\<close>
  | AwaitBody  \<comment> \<open>\<^verbatim>\<open>await synthesisRes.arrayBuffer()\<close>\<close>
  | AwaitWrite path "byte list"  \<comment> \<open>\<^verbatim>\<open>await fs.writeFile(tempFile, audioData)\<close>\<close>
  | Playing path  \<comment> \<open>the \<^verbatim>\<open>await\<close> of the playback promise\<close>
  | Finished completion

datatype event =
    Speak request js_string  \<comment> \<open>a call of \<^verbatim>\<open>speakWithVoicevox(text)\<close>\<close>
  | QueryResponded request nat  \<comment> \<open>the first fetch resolves with this status\<close>
  | QueryParsed request
  | SynthesisResponded request nat  \<comment> \<open>the second fetch resolves with this status\<close>
  | BodyRead request "byte list" path  \<comment> \<open>the audio bytes, and the stamp \<^verbatim>\<open>Date.now()\<close> then gives\<close>
  | WriteDone request
  | Rejected request thrown  \<comment> \<open>the pending \<^verbatim>\<open>await\<close> rejects\<close>
  | ProcClose request  \<comment> \<open>the \<^verbatim>\<open>close\<close> event of the request's playback process\<close>
  | ProcError request thrown  \<comment> \<open>its \<^verbatim>\<open>error\<close> event\<close>

record playback =
  currentPlayProcess :: "request option"
  currentTempFile :: "path option"
  stage :: "request \<Rightarrow> stage"
  tempFile :: "request \<Rightarrow> path"  \<comment> \<open>the \<^verbatim>\<open>tempFile\<close> constant of each call\<close>
  spawned :: "request set"  \<comment> \<open>processes whose \<^verbatim>\<open>close\<close> event is still to come\<close>
  running :: "request set"  \<comment> \<open>playback processes alive\<close>
  disk :: "path set"  \<comment> \<open>temporary files written and not unlinked\<close>
  sent :: "js_string list"  \<comment> \<open>the texts of the \<^verbatim>\<open>audio_query\<close> requests issued\<close>
  broadcasts :: "motion_event list"
  console :: "console list"

text \<open>The module state of \<^verbatim>\<open>voicevox.ts\<close> adds the abort controller.\<close>

record orchestrator = playback +
  currentAbortController :: "request option"
  aborted :: "request set"  \<comment> \<open>the controllers whose signal is aborted\<close>

definition init :: orchestrator where
  "init = \<lparr>currentPlayProcess = None, currentTempFile = None, stage = (\<lambda>r. NotStarted),
           tempFile = (\<lambda>r. 0), spawned = {}, running = {}, disk = {}, sent = [],
           broadcasts = [], console = [], currentAbortController = None, aborted = {}\<rparr>"

definition notifyLipsyncStart :: "int \<Rightarrow> 'a playback_scheme \<Rightarrow> 'a playback_scheme" where
  "notifyLipsyncStart duration s = s\<lparr>broadcasts := broadcasts s @ [StartMotion duration]\<rparr>"

definition notifyLipsyncStop :: "'a playback_scheme \<Rightarrow> 'a playback_scheme" where
  "notifyLipsyncStop s = s\<lparr>broadcasts := broadcasts s @ [StopMotion]\<rparr>"

definition abortCurrent :: "orchestrator \<Rightarrow> orchestrator" where
  \<comment> \<open>\<^verbatim>\<open>if (currentAbortController) { currentAbortController.abort(); ... = null }\<close>\<close>
  "abortCurrent s =
     (case currentAbortController s of
        None \<Rightarrow> s
      | Some c \<Rightarrow> s\<lparr>aborted := insert c (aborted s), currentAbortController := None\<rparr>)"

definition killCurrent :: "'a playback_scheme \<Rightarrow> 'a playback_scheme" where
  \<comment> \<open>\<^verbatim>\<open>if (currentPlayProcess) { ...kill(); ... = null; stopLipsync(); notifyLipsyncStop() }\<close>;
      the killed process counts as stopped at once, its \<^verbatim>\<open>close\<close> event comes later\<close>
  "killCurrent s =
     (case currentPlayProcess s of
        None \<Rightarrow> s
      | Some p \<Rightarrow>
          notifyLipsyncStop
            (s\<lparr>console := console s @ [Console_log ''Stopping previous playback...''],
               running := running s - {p}, currentPlayProcess := None\<rparr>))"

definition unlinkCurrent :: "'a playback_scheme \<Rightarrow> 'a playback_scheme" where
  \<comment> \<open>\<^verbatim>\<open>if (currentTempFile) { fs.unlink(currentTempFile)...; currentTempFile = null }\<close>\<close>
  "unlinkCurrent s =
     (case currentTempFile s of
        None \<Rightarrow> s
      | Some f \<Rightarrow> s\<lparr>disk := disk s - {f}, currentTempFile := None\<rparr>)"

definition stopCurrentPlayback :: "orchestrator \<Rightarrow> orchestrator" where
  "stopCurrentPlayback s = unlinkCurrent (killCurrent (abortCurrent s))"

definition finishCatch :: "request \<Rightarrow> thrown \<Rightarrow> orchestrator \<Rightarrow> orchestrator" where
  \<comment> \<open>an exception inside the \<^verbatim>\<open>try\<close> block reaches the \<^verbatim>\<open>catch\<close> block, which ends the call\<close>
  "finishCatch r e s =
     s\<lparr>console := console s @ fst (speakCatch e),
       stage := (stage s)(r := Finished (snd (speakCatch e)))\<rparr>"

definition awaiting :: "stage \<Rightarrow> bool" where
  \<comment> \<open>the call is suspended at an \<^verbatim>\<open>await\<close> that can reject\<close>
  "awaiting st =
     (case st of
        AwaitQuery \<Rightarrow> True | AwaitQueryJson \<Rightarrow> True | AwaitSynthesis \<Rightarrow> True
      | AwaitBody \<Rightarrow> True | AwaitWrite f d \<Rightarrow> True | _ \<Rightarrow> False)"

definition isAwaitWrite :: "stage \<Rightarrow> bool" where
  "isAwaitWrite st = (case st of AwaitWrite f d \<Rightarrow> True | _ \<Rightarrow> False)"

definition isPlaying :: "stage \<Rightarrow> bool" where
  "isPlaying st = (case st of Playing f \<Rightarrow> True | _ \<Rightarrow> False)"

fun enabled :: "event \<Rightarrow> 'a playback_scheme \<Rightarrow> bool" where
  "enabled (Speak r text) s = (stage s r = NotStarted)"
| "enabled (QueryResponded r status) s = (stage s r = AwaitQuery)"
| "enabled (QueryParsed r) s = (stage s r = AwaitQueryJson)"
| "enabled (SynthesisResponded r status) s = (stage s r = AwaitSynthesis)"
| "enabled (BodyRead r audioData stamp) s = (stage s r = AwaitBody)"
| "enabled (WriteDone r) s = isAwaitWrite (stage s r)"
| "enabled (Rejected r e) s = awaiting (stage s r)"
| "enabled (ProcClose r) s = (r \<in> spawned s)"
| "enabled (ProcError r e) s = (r \<in> spawned s \<and> isPlaying (stage s r))"

definition startSpeak :: "request \<Rightarrow> js_string \<Rightarrow> orchestrator \<Rightarrow> orchestrator" where
  \<comment> \<open>the call up to its first \<^verbatim>\<open>await\<close>\<close>
  "startSpeak r text s =
     (let s1 = (stopCurrentPlayback s)\<lparr>currentAbortController := Some r\<rparr>
      in case audioQueryText text of
           Inl e \<Rightarrow> finishCatch r uriMalformed s1
         | Inr truncatedText \<Rightarrow>
             s1\<lparr>sent := sent s1 @ [truncatedText], stage := (stage s1)(r := AwaitQuery)\<rparr>)"

definition startPlayback ::
  "request \<Rightarrow> path \<Rightarrow> byte list \<Rightarrow> 'a playback_scheme \<Rightarrow> 'a playback_scheme" where
  \<comment> \<open>after \<^verbatim>\<open>writeFile\<close>: record the file, announce the duration, spawn the player\<close>
  "startPlayback r f audioData s =
     (let s1 = notifyLipsyncStart (getWavDuration audioData)
                 (s\<lparr>disk := insert f (disk s), currentTempFile := Some f\<rparr>)
      in s1\<lparr>spawned := insert r (spawned s1), running := insert r (running s1),
             currentPlayProcess := Some r, stage := (stage s1)(r := Playing f)\<rparr>)"

definition clearProcess :: "request \<Rightarrow> 'a playback_scheme \<Rightarrow> 'a playback_scheme" where
  \<comment> \<open>\<^verbatim>\<open>if (currentPlayProcess === proc) currentPlayProcess = null\<close>\<close>
  "clearProcess r s =
     (if currentPlayProcess s = Some r then s\<lparr>currentPlayProcess := None\<rparr> else s)"

definition unlinkOwn :: "request \<Rightarrow> 'a playback_scheme \<Rightarrow> 'a playback_scheme" where
  \<comment> \<open>\<^verbatim>\<open>if (currentTempFile === tempFile) { fs.unlink(tempFile)...; currentTempFile = null }\<close>\<close>
  "unlinkOwn r s =
     (if currentTempFile s = Some (tempFile s r)
      then s\<lparr>disk := disk s - {tempFile s r}, currentTempFile := None\<rparr> else s)"

definition onClose :: "request \<Rightarrow> orchestrator \<Rightarrow> orchestrator" where
  \<comment> \<open>the \<^verbatim>\<open>close\<close> handler; \<^verbatim>\<open>resolve()\<close> ends the call if it still waits\<close>
  "onClose r s =
     (let s1 = unlinkOwn r (notifyLipsyncStop (clearProcess r s));
          s2 = s1\<lparr>spawned := spawned s1 - {r}, running := running s1 - {r}\<rparr>
      in if isPlaying (stage s2 r) then s2\<lparr>stage := (stage s2)(r := Finished Returned)\<rparr>
         else s2)"

definition onError :: "request \<Rightarrow> thrown \<Rightarrow> orchestrator \<Rightarrow> orchestrator" where
  \<comment> \<open>the \<^verbatim>\<open>error\<close> handler: no broadcast and no unlink; \<^verbatim>\<open>reject(err)\<close> reaches the
      \<^verbatim>\<open>catch\<close> block. The process did not start or is gone\<close>
  "onError r e s =
     (let s1 = clearProcess r s
      in finishCatch r e (s1\<lparr>running := running s1 - {r}\<rparr>))"

fun perform :: "event \<Rightarrow> orchestrator \<Rightarrow> orchestrator" where
  "perform (Speak r text) s = startSpeak r text s"
| "perform (QueryResponded r status) s =
     (if \<not> response_ok status then finishCatch r (audioQueryFailed status) s
      else s\<lparr>stage := (stage s)(r := AwaitQueryJson)\<rparr>)"
| "perform (QueryParsed r) s =
     (if r \<in> aborted s then s\<lparr>stage := (stage s)(r := Finished Returned)\<rparr>
      else s\<lparr>stage := (stage s)(r := AwaitSynthesis)\<rparr>)"
| "perform (SynthesisResponded r status) s =
     (if \<not> response_ok status then finishCatch r (synthesisFailed status) s
      else if r \<in> aborted s then s\<lparr>stage := (stage s)(r := Finished Returned)\<rparr>
      else s\<lparr>stage := (stage s)(r := AwaitBody)\<rparr>)"
| "perform (BodyRead r audioData stamp) s =
     s\<lparr>tempFile := (tempFile s)(r := stamp), stage := (stage s)(r := AwaitWrite stamp audioData)\<rparr>"
| "perform (WriteDone r) s =
     (case stage s r of
        AwaitWrite f audioData \<Rightarrow> startPlayback r f audioData s
      | _ \<Rightarrow> s)"
| "perform (Rejected r e) s = finishCatch r e s"
| "perform (ProcClose r) s = onClose r s"
| "perform (ProcError r e) s = onError r e s"

definition step :: "orchestrator \<Rightarrow> event \<Rightarrow> orchestrator" where
  \<comment> \<open>an event that cannot happen in a state changes nothing\<close>
  "step s e = (if enabled e s then perform e s else s)"

definition run :: "event list \<Rightarrow> orchestrator \<Rightarrow> orchestrator" where
  "run evs s = foldl step s evs"

fun feasible :: "event list \<Rightarrow> orchestrator \<Rightarrow> bool" where
  \<comment> \<open>every event of the schedule can happen when its turn comes\<close>
  "feasible [] s = True"
| "feasible (e # evs) s = (enabled e s \<and> feasible evs (step s e))"

definition hello :: js_string where
  "hello = [0x68, 0x69]"

definition speakUntilWrite :: "request \<Rightarrow> path \<Rightarrow> event list" where
  \<comment> \<open>a request whose two synthesis calls succeed, up to the pending \<^verbatim>\<open>writeFile\<close>\<close>
  "speakUntilWrite r stamp =
     [Speak r hello, QueryResponded r 200, QueryParsed r, SynthesisResponded r 200,
      BodyRead r wav45 stamp]"

definition overtakeSchedule :: "event list" where
  \<comment> \<open>request 2 arrives while request 1 waits for \<^verbatim>\<open>writeFile\<close>; both then go on\<close>
  "overtakeSchedule =
     speakUntilWrite 1 1000 @ [Speak 2 hello, WriteDone 1, QueryResponded 2 200, QueryParsed 2,
       SynthesisResponded 2 200, BodyRead 2 wav45 1001, WriteDone 2]"

definition cancelSchedule :: "event list" where
  \<comment> \<open>request 2 arrives while request 1 plays; the killed player then closes\<close>
  "cancelSchedule = speakUntilWrite 1 1000 @ [WriteDone 1, Speak 2 hello, ProcClose 1]"

definition speakToPlayback :: "request \<Rightarrow> js_string \<Rightarrow> byte list \<Rightarrow> path \<Rightarrow> event list" where
  \<comment> \<open>a request nobody interferes with, up to the start of its playback\<close>
  "speakToPlayback r text audioData stamp =
     [Speak r text, QueryResponded r 200, QueryParsed r, SynthesisResponded r 200,
      BodyRead r audioData stamp, WriteDone r]"

section \<open>The queued orchestrator of the Electron main process\<close>

text \<open>
  \<^verbatim>\<open>speakWithVoicevox\<close> wraps its body in a task and chains it on \<^verbatim>\<open>speechQueue\<close> with
  \<^verbatim>\<open>speechQueue.then(task).catch(...)\<close>: a task starts when the one before it has settled.
  The task catches every exception itself. There is no abort controller, and
  \<^verbatim>\<open>stopCurrentPlayback\<close> is never called.
\<close>

record speech_queue = playback +
  pending :: "(request \<times> js_string) list"  \<comment> \<open>tasks chained and not started\<close>
  active :: "request option"  \<comment> \<open>the task that runs\<close>

definition q_init :: speech_queue where
  "q_init = \<lparr>currentPlayProcess = None, currentTempFile = None, stage = (\<lambda>r. NotStarted),
             tempFile = (\<lambda>r. 0), spawned = {}, running = {}, disk = {}, sent = [],
             broadcasts = [], console = [], pending = [], active = None\<rparr>"

fun startFrom :: "(request \<times> js_string) list \<Rightarrow> speech_queue \<Rightarrow> speech_queue" where
  \<comment> \<open>the queue moves on: the next task runs up to its first \<^verbatim>\<open>await\<close>; a task whose URL
      cannot be built logs the error and settles at once\<close>
  "startFrom [] s = s\<lparr>pending := [], active := None\<rparr>"
| "startFrom ((r, text) # rest) s =
     (case audioQueryText text of
        Inl e \<Rightarrow>
          startFrom rest
            (s\<lparr>console := console s @ fst (speakCatch_main uriMalformed),
               stage := (stage s)(r := Finished Returned)\<rparr>)
      | Inr truncatedText \<Rightarrow>
          s\<lparr>sent := sent s @ [truncatedText], stage := (stage s)(r := AwaitQuery),
            pending := rest, active := Some r\<rparr>)"

definition enqueueSpeech :: "request \<Rightarrow> js_string \<Rightarrow> speech_queue \<Rightarrow> speech_queue" where
  "enqueueSpeech r text s =
     (if active s = None then startFrom (pending s @ [(r, text)]) s
      else s\<lparr>stage := (stage s)(r := Waiting), pending := pending s @ [(r, text)]\<rparr>)"

definition q_settle :: "request \<Rightarrow> speech_queue \<Rightarrow> speech_queue" where
  \<comment> \<open>the task of request \<open>r\<close> returns and the next one starts\<close>
  "q_settle r s = startFrom (pending s) (s\<lparr>stage := (stage s)(r := Finished Returned)\<rparr>)"

definition q_catch :: "request \<Rightarrow> thrown \<Rightarrow> speech_queue \<Rightarrow> speech_queue" where
  \<comment> \<open>the \<^verbatim>\<open>catch\<close> block logs and the task returns\<close>
  "q_catch r e s = q_settle r (s\<lparr>console := console s @ fst (speakCatch_main e)\<rparr>)"

definition q_onClose :: "request \<Rightarrow> speech_queue \<Rightarrow> speech_queue" where
  "q_onClose r s =
     (let s1 = unlinkOwn r (notifyLipsyncStop (clearProcess r s));
          s2 = s1\<lparr>spawned := spawned s1 - {r}, running := running s1 - {r}\<rparr>
      in if isPlaying (stage s2 r) then q_settle r s2 else s2)"

definition q_onError :: "request \<Rightarrow> thrown \<Rightarrow> speech_queue \<Rightarrow> speech_queue" where
  \<comment> \<open>the \<^verbatim>\<open>error\<close> handler broadcasts StopMotion, unlinks nothing, and rejects\<close>
  "q_onError r e s =
     (let s1 = notifyLipsyncStop (clearProcess r s)
      in q_catch r e (s1\<lparr>running := running s1 - {r}\<rparr>))"

fun q_perform :: "event \<Rightarrow> speech_queue \<Rightarrow> speech_queue" where
  "q_perform (Speak r text) s = enqueueSpeech r text s"
| "q_perform (QueryResponded r status) s =
     (if \<not> response_ok status then q_catch r (audioQueryFailed status) s
      else s\<lparr>stage := (stage s)(r := AwaitQueryJson)\<rparr>)"
| "q_perform (QueryParsed r) s = s\<lparr>stage := (stage s)(r := AwaitSynthesis)\<rparr>"
| "q_perform (SynthesisResponded r status) s =
     (if \<not> response_ok status then q_catch r (synthesisFailed status) s
      else s\<lparr>stage := (stage s)(r := AwaitBody)\<rparr>)"
| "q_perform (BodyRead r audioData stamp) s =
     s\<lparr>tempFile := (tempFile s)(r := stamp), stage := (stage s)(r := AwaitWrite stamp audioData)\<rparr>"
| "q_perform (WriteDone r) s =
     (case stage s r of
        AwaitWrite f audioData \<Rightarrow> startPlayback r f audioData s
      | _ \<Rightarrow> s)"
| "q_perform (Rejected r e) s = q_catch r e s"
| "q_perform (ProcClose r) s = q_onClose r s"
| "q_perform (ProcError r e) s = q_onError r e s"

definition q_step :: "speech_queue \<Rightarrow> event \<Rightarrow> speech_queue" where
  "q_step s e = (if enabled e s then q_perform e s else s)"

definition q_run :: "event list \<Rightarrow> speech_queue \<Rightarrow> speech_queue" where
  "q_run evs s = foldl q_step s evs"

fun writesBeforeClose :: "event \<Rightarrow> speech_queue \<Rightarrow> bool" where
  \<comment> \<open>a request's file is written while the \<^verbatim>\<open>close\<close> event of an earlier player is
      still to come\<close>
  "writesBeforeClose (WriteDone r) s = (isAwaitWrite (stage s r) \<and> spawned s \<noteq> {})"
| "writesBeforeClose other s = False"

fun orderly :: "event list \<Rightarrow> speech_queue \<Rightarrow> bool" where
  \<comment> \<open>a run in which every player has emitted \<^verbatim>\<open>close\<close>, after its normal end or after
      its \<^verbatim>\<open>error\<close>, before the next request has written its file\<close>
  "orderly [] s = True"
| "orderly (e # evs) s = (\<not> writesBeforeClose e s \<and> orderly evs (q_step s e))"




definition spawnFailed :: thrown where
  "spawnFailed = Error ''Error'' ''spawn afplay ENOENT'' None"

definition isFinished :: "stage \<Rightarrow> bool" where
  "isFinished st = (case st of Finished c \<Rightarrow> True | _ \<Rightarrow> False)"

definition q_quiet :: "speech_queue \<Rightarrow> bool" where
  \<comment> \<open>no task is under way\<close>
  "q_quiet s = (\<forall>r. \<not> awaiting (stage s r) \<and> \<not> isPlaying (stage s r))"

definition q_base :: "speech_queue \<Rightarrow> bool" where
  \<comment> \<open>files and players: at most one player awaits its \<^verbatim>\<open>close\<close>, it owns the current
      file, and no file exists without such a player\<close>
  "q_base s =
     (disk s \<subseteq> set_option (currentTempFile s)
      \<and> (\<forall>r. r \<in> spawned s \<longrightarrow>
             spawned s = {r} \<and> currentTempFile s = Some (tempFile s r)
             \<and> (isPlaying (stage s r) \<or> isFinished (stage s r)))
      \<and> (spawned s = {} \<longrightarrow> disk s = {})
      \<and> running s \<subseteq> spawned s
      \<and> (\<forall>r f d. stage s r = AwaitWrite f d \<longrightarrow> tempFile s r = f))"

definition q_sched :: "speech_queue \<Rightarrow> bool" where
  \<comment> \<open>the queue: only the active task is under way, and the tasks chained behind it wait\<close>
  "q_sched s =
     ((\<forall>r. isPlaying (stage s r) \<longrightarrow> active s = Some r \<and> r \<in> spawned s)
      \<and> (\<forall>r. awaiting (stage s r) \<longrightarrow> active s = Some r)
      \<and> list_all (\<lambda>p. stage s (fst p) = Waiting) (pending s)
      \<and> distinct (map fst (pending s))
      \<and> (active s = None \<longrightarrow> pending s = []))"

definition q_inv :: "speech_queue \<Rightarrow> bool" where
  \<comment> \<open>the invariant of the orderly runs\<close>
  "q_inv s = (q_base s \<and> q_sched s)"


section \<open>The session log tailer\<close>

text \<open>
  A log file is a sequence of bytes; a line is what \<^verbatim>\<open>split("\n")\<close> yields.
  \<^verbatim>\<open>JSON.parse\<close> is a parameter of the model: it maps a line to what the tailer reads of
  the parsed value, or fails.
\<close>

record content_item =
  c_type :: string
  c_text :: "string option"

datatype parsed =
    Unparsable  \<comment> \<open>\<^verbatim>\<open>JSON.parse\<close> throws\<close>
  | Entry string "string option" "string option" "content_item list option"
      \<comment> \<open>\<^verbatim>\<open>data.type\<close>, \<^verbatim>\<open>data.message?.role\<close>, \<^verbatim>\<open>data.uuid\<close>, and
          \<^verbatim>\<open>data.message.content\<close> when it is an array\<close>

type_synonym parser = "string \<Rightarrow> parsed"

record pass =
  todo :: "string list"  \<comment> \<open>the lines the loop has not reached\<close>
  awaitingSend :: "string option option"  \<comment> \<open>the uuid of the message being forwarded\<close>

record tailer =
  processedMessages :: "string option set"
  filePositions :: "string \<rightharpoonup> nat"
  currentSessionFile :: "string option"
  forwarded :: "(string option \<times> string) list"  \<comment> \<open>what reached the speech entry point\<close>
  passes :: "nat \<Rightarrow> pass"  \<comment> \<open>the read-passes that are suspended at an \<^verbatim>\<open>await\<close>\<close>

definition noPass :: pass where
  "noPass = \<lparr>todo = [], awaitingSend = None\<rparr>"

definition t_init :: tailer where
  "t_init = \<lparr>processedMessages = {}, filePositions = Map.empty, currentSessionFile = None,
             forwarded = [], passes = (\<lambda>k. noPass)\<rparr>"

fun intersperse :: "'a list \<Rightarrow> 'a list list \<Rightarrow> 'a list" where
  \<comment> \<open>\<^verbatim>\<open>parts.join(sep)\<close>\<close>
  "intersperse sep [] = []"
| "intersperse sep [x] = x"
| "intersperse sep (x # y # ys) = x @ sep @ intersperse sep (y # ys)"

definition extractTextFromContent :: "content_item list option \<Rightarrow> string option" where
  "extractTextFromContent content =
     (case content of
        None \<Rightarrow> None
      | Some items \<Rightarrow>
          (let textParts =
                 map (\<lambda>c. the (c_text c))
                   (filter (\<lambda>c. c_type c = ''text'' \<and> c_text c \<noteq> None \<and> c_text c \<noteq> Some [])
                      items)
           in if textParts = [] then None else Some (intersperse [CHR 0x0A] textParts)))"

definition whitespace :: "char list" where
  "whitespace = [CHR 0x09, CHR 0x0A, CHR 0x0B, CHR 0x0C, CHR 0x0D, CHR 0x20]"

definition isBlank :: "string \<Rightarrow> bool" where
  \<comment> \<open>\<^verbatim>\<open>!line.trim()\<close>\<close>
  "isBlank line = list_all (\<lambda>c. c \<in> set whitespace) line"

definition forwardOf :: "parser \<Rightarrow> tailer \<Rightarrow> string \<Rightarrow> (string option \<times> string) option" where
  \<comment> \<open>the tests of the loop body: the uuid and the text to forward, if the line passes them\<close>
  "forwardOf parse st line =
     (if isBlank line then None
      else case parse line of
             Unparsable \<Rightarrow> None
           | Entry ty role uuid content \<Rightarrow>
               if ty = ''assistant'' \<and> role = Some ''assistant''
                  \<and> uuid \<notin> processedMessages st
               then (case extractTextFromContent content of
                       None \<Rightarrow> None
                     | Some text \<Rightarrow> if text = [] then None else Some (uuid, text))
               else None)"

definition processLine :: "parser \<Rightarrow> tailer \<Rightarrow> string \<Rightarrow> tailer" where
  \<comment> \<open>one turn of the loop when nothing else runs during its \<^verbatim>\<open>await\<close>: the message is
      forwarded, then its uuid is recorded\<close>
  "processLine parse st line =
     (case forwardOf parse st line of
        None \<Rightarrow> st
      | Some (uuid, text) \<Rightarrow>
          st\<lparr>forwarded := forwarded st @ [(uuid, text)],
             processedMessages := insert uuid (processedMessages st)\<rparr>)"

fun splitLines :: "string \<Rightarrow> string list" where
  \<comment> \<open>\<^verbatim>\<open>content.split("\n")\<close>\<close>
  "splitLines [] = [[]]"
| "splitLines (c # cs) =
     (if c = CHR 0x0A then [] # splitLines cs
      else case splitLines cs of
             [] \<Rightarrow> [[c]]
           | l # ls \<Rightarrow> (c # l) # ls)"

definition lastPosition :: "tailer \<Rightarrow> string \<Rightarrow> nat" where
  \<comment> \<open>\<^verbatim>\<open>filePositions.get(filePath) || 0\<close>\<close>
  "lastPosition st filePath = (case filePositions st filePath of None \<Rightarrow> 0 | Some p \<Rightarrow> p)"

definition newLines :: "string \<Rightarrow> nat \<Rightarrow> string list" where
  \<comment> \<open>the bytes from the old offset to the size just observed, split into lines\<close>
  "newLines content offset = splitLines (take (length content - offset) (drop offset content))"

definition processNewLines :: "parser \<Rightarrow> (string \<rightharpoonup> string) \<Rightarrow> string \<Rightarrow> tailer \<Rightarrow> tailer" where
  \<comment> \<open>a read-pass that nothing interrupts. \<open>fs\<close> is the file system at the time of the
      pass; a missing file makes \<^verbatim>\<open>statSync\<close> throw and the pass does nothing\<close>
  "processNewLines parse fs filePath st =
     (case fs filePath of
        None \<Rightarrow> st
      | Some content \<Rightarrow>
          if length content \<le> lastPosition st filePath then st
          else foldl (processLine parse)
                 (st\<lparr>filePositions := (filePositions st)(filePath \<mapsto> length content)\<rparr>)
                 (newLines content (lastPosition st filePath)))"

definition findLatestSessionFile :: "(string \<times> nat) list \<Rightarrow> string option" where
  \<comment> \<open>the directory as names with modification times: the \<^verbatim>\<open>.jsonl\<close> files sorted by
      decreasing time (the sort is stable), and the first of them\<close>
  "findLatestSessionFile files =
     (case sort_key (\<lambda>f. - int (snd f)) (filter (\<lambda>f. suffix ''.jsonl'' (fst f)) files) of
        [] \<Rightarrow> None
      | f # fs \<Rightarrow> Some (fst f))"

definition watchProject :: "(string \<times> nat) list \<Rightarrow> (string \<rightharpoonup> string) \<Rightarrow> tailer \<Rightarrow> tailer" where
  \<comment> \<open>start of the watch: the existing content of the current file is skipped\<close>
  "watchProject files fs st =
     (case findLatestSessionFile files of
        None \<Rightarrow> st\<lparr>currentSessionFile := None\<rparr>
      | Some f \<Rightarrow>
          st\<lparr>currentSessionFile := Some f,
             filePositions := (filePositions st)(f \<mapsto> length (case fs f of None \<Rightarrow> [] | Some c \<Rightarrow> c))\<rparr>)"

definition rotates :: "(string \<times> nat) list \<Rightarrow> tailer \<Rightarrow> bool" where
  \<comment> \<open>\<^verbatim>\<open>latestFile && latestFile !== currentSessionFile\<close>\<close>
  "rotates files st =
     (findLatestSessionFile files \<noteq> None
      \<and> findLatestSessionFile files \<noteq> currentSessionFile st)"

definition adoptLatest :: "(string \<times> nat) list \<Rightarrow> tailer \<Rightarrow> tailer" where
  "adoptLatest files st =
     (if rotates files st
      then st\<lparr>currentSessionFile := findLatestSessionFile files,
              filePositions := (filePositions st)(the (findLatestSessionFile files) \<mapsto> 0)\<rparr>
      else st)"

definition onTimer :: "parser \<Rightarrow> (string \<times> nat) list \<Rightarrow> (string \<rightharpoonup> string) \<Rightarrow> tailer \<Rightarrow> tailer" where
  \<comment> \<open>the debounced callback, run without interruption\<close>
  "onTimer parse files fs st =
     (let st1 = adoptLatest files st
      in case currentSessionFile st1 of
           None \<Rightarrow> st1
         | Some f \<Rightarrow> if fs f \<noteq> None then processNewLines parse fs f st1 else st1)"

subsection \<open>Read-passes that overlap\<close>

text \<open>
  The callback is an async function and nothing serialises two of them: while one pass
  waits for its message to be spoken, the timer can fire again. A pass runs from one
  \<^verbatim>\<open>await\<close> to the next; its uuid is recorded when its \<^verbatim>\<open>await\<close> returns.
\<close>

fun advance :: "parser \<Rightarrow> nat \<Rightarrow> string list \<Rightarrow> tailer \<Rightarrow> tailer" where
  \<comment> \<open>pass \<open>k\<close> goes through its lines up to the next message to forward\<close>
  "advance parse k [] st = st\<lparr>passes := (passes st)(k := noPass)\<rparr>"
| "advance parse k (line # rest) st =
     (case forwardOf parse st line of
        None \<Rightarrow> advance parse k rest st
      | Some (uuid, text) \<Rightarrow>
          st\<lparr>forwarded := forwarded st @ [(uuid, text)],
             passes := (passes st)(k := \<lparr>todo = rest, awaitingSend = Some uuid\<rparr>)\<rparr>)"

definition beginPass :: "parser \<Rightarrow> nat \<Rightarrow> (string \<rightharpoonup> string) \<Rightarrow> string \<Rightarrow> tailer \<Rightarrow> tailer" where
  "beginPass parse k fs filePath st =
     (case fs filePath of
        None \<Rightarrow> st
      | Some content \<Rightarrow>
          if length content \<le> lastPosition st filePath then st
          else advance parse k (newLines content (lastPosition st filePath))
                 (st\<lparr>filePositions := (filePositions st)(filePath \<mapsto> length content)\<rparr>))"

datatype tail_event =
    TimerFired nat "(string \<times> nat) list" "string \<rightharpoonup> string"
      \<comment> \<open>the callback starts pass \<open>k\<close> on the directory and files as they are then\<close>
  | SendDone nat  \<comment> \<open>the \<^verbatim>\<open>await\<close> of pass \<open>k\<close> returns\<close>

fun t_step :: "parser \<Rightarrow> tailer \<Rightarrow> tail_event \<Rightarrow> tailer" where
  "t_step parse st (TimerFired k files fs) =
     (let st1 = adoptLatest files st
      in case currentSessionFile st1 of
           None \<Rightarrow> st1
         | Some f \<Rightarrow> if fs f \<noteq> None then beginPass parse k fs f st1 else st1)"
| "t_step parse st (SendDone k) =
     (case awaitingSend (passes st k) of
        None \<Rightarrow> st
      | Some uuid \<Rightarrow>
          advance parse k (todo (passes st k))
            (st\<lparr>processedMessages := insert uuid (processedMessages st)\<rparr>))"

definition t_run :: "parser \<Rightarrow> tail_event list \<Rightarrow> tailer \<Rightarrow> tailer" where
  "t_run parse evs st = foldl (t_step parse) st evs"

definition demoParse :: parser where
  \<comment> \<open>a parser for the examples: the line \<open>x\<close> stands for an assistant message with uuid
      \<open>x1\<close> and the text \<open>hi\<close>, the line \<open>u\<close> for a user message, anything else fails\<close>
  "demoParse line =
     (if line = ''x''
      then Entry ''assistant'' (Some ''assistant'') (Some ''x1'')
             (Some [\<lparr>c_type = ''text'', c_text = Some ''hi''\<rparr>])
      else if line = ''u''
      then Entry ''user'' (Some ''user'') (Some ''u1'') (Some [\<lparr>c_type = ''text'', c_text = Some ''yo''\<rparr>])
      else Unparsable)"

definition rotationSchedule :: "tail_event list" where
  \<comment> \<open>message \<open>x\<close> is appended to \<open>a.jsonl\<close>; while it is spoken, \<open>b.jsonl\<close> becomes the
      newest file and then \<open>a.jsonl\<close> again\<close>
  "rotationSchedule =
     [TimerFired 1 [(''a.jsonl'', 2)] [''a.jsonl'' \<mapsto> [CHR ''x'', CHR 0x0A]],
      TimerFired 2 [(''a.jsonl'', 2), (''b.jsonl'', 3)]
        [''a.jsonl'' \<mapsto> [CHR ''x'', CHR 0x0A], ''b.jsonl'' \<mapsto> [CHR ''u'', CHR 0x0A]],
      TimerFired 3 [(''a.jsonl'', 4), (''b.jsonl'', 3)]
        [''a.jsonl'' \<mapsto> [CHR ''x'', CHR 0x0A, CHR ''u'', CHR 0x0A],
         ''b.jsonl'' \<mapsto> [CHR ''u'', CHR 0x0A]]]"

definition watching :: tailer where
  \<comment> \<open>the tailer after it started on a directory whose only log is empty\<close>
  "watching = watchProject [(''a.jsonl'', 1)] [''a.jsonl'' \<mapsto> []] t_init"

definition logA :: "string \<rightharpoonup> string" where
  \<comment> \<open>the file system once the line \<open>x\<close> is appended to \<open>a.jsonl\<close>\<close>
  "logA = [''a.jsonl'' \<mapsto> [CHR ''x'', CHR 0x0A]]"

definition once :: "tailer \<Rightarrow> bool" where
  \<comment> \<open>no uuid was forwarded twice, and every forwarded uuid is recorded\<close>
  "once st = (distinct (map fst (forwarded st))
              \<and> fst ` set (forwarded st) \<subseteq> processedMessages st)"

fun finishPass :: "parser \<Rightarrow> nat \<Rightarrow> nat \<Rightarrow> tailer \<Rightarrow> tailer" where
  \<comment> \<open>pass \<open>k\<close> alone: each of its \<^verbatim>\<open>await\<close>s returns before anything else happens;
      the number bounds the \<^verbatim>\<open>await\<close>s left\<close>
  "finishPass parse k 0 st = st"
| "finishPass parse k (Suc n) st =
     (case awaitingSend (passes st k) of
        None \<Rightarrow> st
      | Some uuid \<Rightarrow> finishPass parse k n (t_step parse st (SendDone k)))"

definition sameLog :: "tailer \<Rightarrow> tailer \<Rightarrow> bool" where
  \<comment> \<open>two states that differ at most in the bookkeeping of suspended passes\<close>
  "sameLog st st' =
     (forwarded st = forwarded st' \<and> processedMessages st = processedMessages st'
      \<and> filePositions st = filePositions st' \<and> currentSessionFile st = currentSessionFile st')"

section \<open>The debounce of the directory watcher\<close>

text \<open>
  The watcher callback clears the pending timeout, if any, and sets a new one of
  \<^verbatim>\<open>DEBOUNCE_MS\<close>; the timeout's callback is the read-pass. Time is counted in
  milliseconds; a timeout fires when its deadline is reached and it has not been cleared.
\<close>

record debouncer =
  now :: nat
  debounceTimer :: "nat option"  \<comment> \<open>the deadline of the pending timeout\<close>
  readPasses :: "nat list"  \<comment> \<open>the times at which the read-pass callback ran\<close>

datatype watch_event =
    Notify "string option"  \<comment> \<open>a change notification with its file name, if it has one\<close>
  | Elapse nat  \<comment> \<open>so many milliseconds pass\<close>

definition onNotify :: "string option \<Rightarrow> debouncer \<Rightarrow> debouncer" where
  \<comment> \<open>\<^verbatim>\<open>if (!filename || !filename.endsWith(".jsonl")) return;\<close> then
      \<^verbatim>\<open>clearTimeout\<close> and \<^verbatim>\<open>setTimeout(..., DEBOUNCE_MS)\<close>\<close>
  "onNotify filename w =
     (case filename of
        None \<Rightarrow> w
      | Some name \<Rightarrow>
          if name = [] \<or> \<not> suffix ''.jsonl'' name then w
          else w\<lparr>debounceTimer := Some (now w + DEBOUNCE_MS)\<rparr>)"

definition elapse :: "nat \<Rightarrow> debouncer \<Rightarrow> debouncer" where
  "elapse d w =
     (case debounceTimer w of
        None \<Rightarrow> w\<lparr>now := now w + d\<rparr>
      | Some deadline \<Rightarrow>
          if deadline \<le> now w + d
          then w\<lparr>now := now w + d, debounceTimer := None,
                 readPasses := readPasses w @ [deadline]\<rparr>
          else w\<lparr>now := now w + d\<rparr>)"

fun w_step :: "debouncer \<Rightarrow> watch_event \<Rightarrow> debouncer" where
  "w_step w (Notify filename) = onNotify filename w"
| "w_step w (Elapse d) = elapse d w"

definition w_run :: "watch_event list \<Rightarrow> debouncer \<Rightarrow> debouncer" where
  "w_run evs w = foldl w_step w evs"

fun burst :: "string \<Rightarrow> nat list \<Rightarrow> watch_event list" where
  \<comment> \<open>notifications for one file, separated by the given gaps\<close>
  "burst name [] = [Notify (Some name)]"
| "burst name (gap # gaps) = Notify (Some name) # Elapse gap # burst name gaps"

definition w_init :: debouncer where
  "w_init = \<lparr>now = 0, debounceTimer = None, readPasses = []\<rparr>"

section \<open>Properties of the duration estimator\<close>

lemma scanData_find:
  "scanData buffer i =
     (case find (isDataTag buffer) [i..<length buffer - 8] of
        None \<Rightarrow> Inr 0
      | Some j \<Rightarrow> readUInt32LE buffer (j + 4))"
proof (induction buffer i rule: scanData.induct)
  case (1 buffer i)
  show ?case
  proof (cases "int i < int (length buffer) - 8")
    case True
    then have lt: "i < length buffer - 8" by linarith
    then have upt: "[i..<length buffer - 8] = i # [Suc i..<length buffer - 8]"
      by (simp add: upt_conv_Cons)
    show ?thesis
    proof (cases "isDataTag buffer i")
      case True
      with \<open>int i < int (length buffer) - 8\<close> upt show ?thesis
        by (subst scanData.simps) simp
    next
      case False
      with \<open>int i < int (length buffer) - 8\<close> upt "1.IH" show ?thesis
        by (subst scanData.simps) simp
    qed
  next
    case False
    then have "[i..<length buffer - 8] = []" by simp
    with False show ?thesis
      by (subst scanData.simps) simp
  qed
qed

lemma find_upt_bound:
  "find P [i..<n] = Some j \<Longrightarrow> i \<le> j \<and> j < n"
  by (auto simp: find_Some_iff)

lemma readUInt32LE_in_range:
  "offset + 4 \<le> length buffer \<Longrightarrow> readUInt32LE buffer offset = Inr (u32le buffer offset)"
  by (simp add: readUInt32LE_def u32le_def)

lemma readUInt32LE_out_of_range:
  "length buffer < offset + 4 \<Longrightarrow> readUInt32LE buffer offset = Inl RangeError"
  by (simp add: readUInt32LE_def)

lemma scanData_firstDataTag:
  "scanData buffer 0 =
     (case firstDataTag buffer of None \<Rightarrow> Inr 0 | Some j \<Rightarrow> Inr (u32le buffer (j + 4)))"
proof (cases "firstDataTag buffer")
  case None
  then show ?thesis by (simp add: scanData_find firstDataTag_def)
next
  case (Some j)
  then have "j < length buffer - 8"
    using find_upt_bound [of "isDataTag buffer" 0 "length buffer - 8" j]
    by (simp add: firstDataTag_def)
  then have "j + 4 + 4 \<le> length buffer" by linarith
  then have "readUInt32LE buffer (j + 4) = Inr (u32le buffer (j + 4))"
    by (rule readUInt32LE_in_range)
  with Some show ?thesis by (simp add: scanData_find firstDataTag_def)
qed

lemma getWavDuration_main_eq: "getWavDuration_main buffer = getWavDuration buffer"
  by (auto simp: getWavDuration_main_def getWavDuration_def readUInt32LE_def
      split: sum.splits if_splits)

text \<open>
  C4 (as amended). \<^verbatim>\<open>getWavDuration\<close> is a total function of the buffer. A buffer shorter
  than 32 bytes gives the fallback 2000. Otherwise the scan looks for the tag at the indices
  below \<open>length - 8\<close> only and stops at the first one: when there is none, or the payload
  size that follows the first one is zero, or the byte rate at offset 28 is zero, the result
  is 2000; in the remaining case it is \<^verbatim>\<open>Math.floor((dataSize / byteRate) * 1000)\<close>
  computed in double precision.
\<close>

theorem getWavDuration_spec:
  "getWavDuration buffer =
     (if length buffer < 32 then 2000
      else case firstDataTag buffer of
             None \<Rightarrow> 2000
           | Some i \<Rightarrow>
               if u32le buffer (i + 4) = 0 \<or> u32le buffer 28 = 0 then 2000
               else Math_floor (js_mul (js_div (of_int (u32le buffer (i + 4)))
                                               (of_int (u32le buffer 28))) 1000))"
proof (cases "length buffer < 32")
  case True
  then have "readUInt32LE buffer 28 = Inl RangeError"
    by (simp add: readUInt32LE_out_of_range)
  with True show ?thesis
    by (simp add: getWavDuration_def DEFAULT_AUDIO_DURATION_MS_def split: sum.splits)
next
  case False
  then have r24: "readUInt32LE buffer 24 = Inr (u32le buffer 24)"
    and r28: "readUInt32LE buffer 28 = Inr (u32le buffer 28)"
    by (simp_all add: readUInt32LE_in_range)
  from False show ?thesis
    by (simp add: getWavDuration_def r24 r28 scanData_firstDataTag wavDurationOf_def
        DEFAULT_AUDIO_DURATION_MS_def split: option.splits)
qed

theorem getWavDuration_spec_witness:
  "getWavDuration wav45 = 1004"
proof -
  have len: "length wav45 = 45" by (simp add: wav45_def)
  have tag: "firstDataTag wav45 = Some 36" by code_simp
  have ds: "u32le wav45 40 = 1005" by code_simp
  have br: "u32le wav45 28 = 1000" by code_simp
  have fl: "Math_floor (js_mul (js_div 1005 1000) 1000) = 1004" by code_simp
  show ?thesis using getWavDuration_spec [of wav45] by (simp add: len tag ds br fl)
qed

text \<open>
  The claim as stated fails on a header whose tag stands exactly eight bytes before the end:
  the byte rate (1000) and the payload size (1000) are nonzero and the tag is in the
  buffer, yet the scan never looks at index \<open>length - 8\<close> and the result is the fallback,
  not \<open>floor (1000 / 1000 * 1000) = 1000\<close>.
\<close>

theorem getWavDuration_tag_at_end_counterexample:
  "readUInt32LE header44 28 = Inr 1000 \<and> isDataTag header44 36
   \<and> readUInt32LE header44 40 = Inr 1000
   \<and> Math_floor (js_mul (js_div 1000 1000) 1000) = 1000
   \<and> getWavDuration header44 = 2000"
  by code_simp

section \<open>Properties of the truncation\<close>

lemma truncateText_long:
  "MAX_TEXT_LENGTH < length text \<Longrightarrow> truncateText text = take 200 text @ ellipsis"
  by (simp add: truncateText_def MAX_TEXT_LENGTH_def)

lemma truncateText_short:
  "length text \<le> MAX_TEXT_LENGTH \<Longrightarrow> truncateText text = text"
  by (simp add: truncateText_def)

lemma truncateText_length:
  "length (truncateText text) = (if 200 < length text then 203 else length text)"
  by (simp add: truncateText_def MAX_TEXT_LENGTH_def ellipsis_def)

lemma audioQueryText_wellFormed:
  "isWellFormed (truncateText text) \<Longrightarrow> audioQueryText text = Inr (truncateText text)"
  by (simp add: audioQueryText_def)

text \<open>
  C5 at its failing input. The text is 199 letters followed by one emoji: well formed and
  201 code units long. \<^verbatim>\<open>slice(0, 200)\<close> keeps the emoji's high surrogate and drops the
  low one, \<^verbatim>\<open>encodeURIComponent\<close> throws on the unpaired surrogate, and no request
  carrying the first 200 code units and the marker reaches the synthesis service.
\<close>

theorem speak_truncation_splits_surrogate_pair:
  "length emojiAcrossLimit = 201
   \<and> isWellFormed emojiAcrossLimit
   \<and> truncateText emojiAcrossLimit = replicate 199 0x61 @ [0xD83D] @ ellipsis
   \<and> audioQueryText emojiAcrossLimit = Inl URIError"
  by code_simp

section \<open>Properties of the \<^verbatim>\<open>/expression\<close> endpoint\<close>

lemma falsy_ne_default: "\<not> truthy (Some v) \<Longrightarrow> v \<noteq> JNumber 3000"
  by (cases v) auto

text \<open>
  C10. For a request whose name is one of the five expressions: a duration that is 0, null
  or absent yields a broadcast carrying 3000; a nonzero number \<open>d\<close> yields a broadcast
  carrying \<open>d\<close>; and whenever the broadcast carries the supplied value, that value is
  neither 0 nor null.
\<close>

theorem postExpression_duration:
  assumes "body ''name'' = Some (JString n)" and "n \<in> set EXPRESSIONS"
  shows "(body ''duration'' = None \<or> body ''duration'' = Some JNull
            \<or> body ''duration'' = Some (JNumber 0)
          \<longrightarrow> postExpression body = (200, [Expression (JString n) (JNumber 3000)]))
       \<and> (\<forall>d. body ''duration'' = Some (JNumber d) \<and> d \<noteq> 0
          \<longrightarrow> postExpression body = (200, [Expression (JString n) (JNumber d)]))
       \<and> (\<forall>v. body ''duration'' = Some v
               \<and> postExpression body = (200, [Expression (JString n) v])
          \<longrightarrow> v \<noteq> JNumber 0 \<and> v \<noteq> JNull)"
proof -
  from assms have nonempty: "n \<noteq> []"
    by (auto simp: EXPRESSIONS_def)
  with assms have valid: "truthy (body ''name'')" "includesName EXPRESSIONS (body ''name'')"
    by simp_all
  have post: "postExpression body =
      (200, [Expression (JString n)
               (if truthy (body ''duration'') then the (body ''duration'') else JNumber 3000)])"
    using valid assms(1)
    by (simp add: postExpression_def notifyExpression_def EXPRESSION_DURATION_MS_def Let_def)
  have a: "body ''duration'' = None \<or> body ''duration'' = Some JNull
            \<or> body ''duration'' = Some (JNumber 0)
          \<longrightarrow> postExpression body = (200, [Expression (JString n) (JNumber 3000)])"
    using post by auto
  have b: "\<forall>d. body ''duration'' = Some (JNumber d) \<and> d \<noteq> 0
          \<longrightarrow> postExpression body = (200, [Expression (JString n) (JNumber d)])"
    using post by auto
  have c: "\<forall>v. body ''duration'' = Some v
               \<and> postExpression body = (200, [Expression (JString n) v])
          \<longrightarrow> v \<noteq> JNumber 0 \<and> v \<noteq> JNull"
    using post by auto
  from a b c show ?thesis by blast
qed

theorem postExpression_duration_witness:
  "postExpression [''name'' \<mapsto> JString ''smile'', ''duration'' \<mapsto> JNumber 0]
     = (200, [Expression (JString ''smile'') (JNumber 3000)])
   \<and> postExpression [''name'' \<mapsto> JString ''smile'']
     = (200, [Expression (JString ''smile'') (JNumber 3000)])
   \<and> postExpression [''name'' \<mapsto> JString ''smile'', ''duration'' \<mapsto> JNumber 500]
     = (200, [Expression (JString ''smile'') (JNumber 500)])"
proof -
  have n: "''smile'' \<in> set EXPRESSIONS" by (simp add: EXPRESSIONS_def)
  have "postExpression [''name'' \<mapsto> JString ''smile'', ''duration'' \<mapsto> JNumber 0]
     = (200, [Expression (JString ''smile'') (JNumber 3000)])"
    using postExpression_duration
      [of "[''name'' \<mapsto> JString ''smile'', ''duration'' \<mapsto> JNumber 0]" "''smile''"] n
    by simp
  moreover have "postExpression [''name'' \<mapsto> JString ''smile'']
     = (200, [Expression (JString ''smile'') (JNumber 3000)])"
    using postExpression_duration [of "[''name'' \<mapsto> JString ''smile'']" "''smile''"] n
    by simp
  moreover have
    "postExpression [''name'' \<mapsto> JString ''smile'', ''duration'' \<mapsto> JNumber 500]
     = (200, [Expression (JString ''smile'') (JNumber 500)])"
    using postExpression_duration
      [of "[''name'' \<mapsto> JString ''smile'', ''duration'' \<mapsto> JNumber 500]" "''smile''"] n
    by simp
  ultimately show ?thesis by blast
qed

section \<open>Properties of the failure handling\<close>

lemma digit_not_E: "d < 10 \<Longrightarrow> CHR ''E'' \<noteq> digit d"
proof -
  assume "d < 10"
  then have "d \<in> {0, 1, 2, 3, 4, 5, 6, 7, 8, 9}" by auto
  then show ?thesis by (auto simp: digit_def)
qed

lemma decimal_no_E: "CHR ''E'' \<notin> set (decimal n)"
proof (induction n rule: decimal.induct)
  case (1 n)
  show ?case
  proof (cases "n < 10")
    case True
    then show ?thesis by (subst decimal.simps) (simp add: digit_not_E)
  next
    case False
    with "1.IH" show ?thesis by (subst decimal.simps) (simp add: digit_not_E)
  qed
qed

lemma includes_needs_E: "CHR ''E'' \<notin> set message \<Longrightarrow> \<not> str_includes message ''ECONNREFUSED''"
proof
  assume noE: "CHR ''E'' \<notin> set message" and "str_includes message ''ECONNREFUSED''"
  then have "sublist ''ECONNREFUSED'' message"
    by (simp add: str_includes_def)
  then have "set ''ECONNREFUSED'' \<subseteq> set message"
    by (rule set_mono_sublist)
  with noE show False by simp
qed

lemma audioQueryFailed_rethrown:
  "speakCatch (audioQueryFailed status) = ([], Threw (audioQueryFailed status))"
  by (simp add: audioQueryFailed_def includes_needs_E decimal_no_E)

lemma synthesisFailed_rethrown:
  "speakCatch (synthesisFailed status) = ([], Threw (synthesisFailed status))"
  by (simp add: synthesisFailed_def includes_needs_E decimal_no_E)

section \<open>Properties of the preemptive orchestrator\<close>

lemma getWavDuration_wav45: "getWavDuration wav45 = 1004"
  by code_simp

lemma audioQueryText_hello: "audioQueryText hello = Inr hello"
  by code_simp

lemmas orchestrator_defs =
  run_def step_def startSpeak_def stopCurrentPlayback_def abortCurrent_def killCurrent_def
  unlinkCurrent_def startPlayback_def notifyLipsyncStart_def notifyLipsyncStop_def
  onClose_def onError_def clearProcess_def unlinkOwn_def finishCatch_def
  isAwaitWrite_def isPlaying_def awaiting_def response_ok_def init_def

text \<open>
  C1 at its failing interleaving. Request 2 arrives while request 1 waits for
  \<^verbatim>\<open>writeFile\<close>: there is no process to kill yet, and request 1 does not look at its abort
  signal again before it spawns its player. Once request 2 has synthesised, two playback
  processes run, and the file of request 1 is no longer the current one.
\<close>

theorem overtaking_request_two_players:
  "feasible overtakeSchedule init
   \<and> running (run overtakeSchedule init) = {1, 2}
   \<and> 1 \<in> aborted (run overtakeSchedule init)
   \<and> currentPlayProcess (run overtakeSchedule init) = Some 2
   \<and> disk (run overtakeSchedule init) = {1000, 1001}"
  by (simp add: overtakeSchedule_def speakUntilWrite_def orchestrator_defs
      audioQueryText_hello getWavDuration_wav45 insert_commute)

text \<open>
  C2 at its failing interleaving. Request 2 arrives while request 1 plays:
  \<^verbatim>\<open>stopCurrentPlayback\<close> kills the player and broadcasts StopMotion, and the \<^verbatim>\<open>close\<close>
  handler of the killed player broadcasts StopMotion again. One StartMotion, two StopMotion.
\<close>

theorem cancelled_playback_stops_twice:
  "feasible cancelSchedule init
   \<and> broadcasts (run cancelSchedule init) = [StartMotion 1004, StopMotion, StopMotion]"
  by (simp add: cancelSchedule_def speakUntilWrite_def orchestrator_defs
      audioQueryText_hello getWavDuration_wav45)

subsection \<open>Failures stay inside their request\<close>

lemma step_Speak:
  assumes "stage s r = NotStarted" and "isWellFormed (truncateText text)"
    and "currentAbortController s \<noteq> Some r" and "r \<notin> aborted s"
  shows "stage (step s (Speak r text)) r = AwaitQuery"
    and "r \<notin> aborted (step s (Speak r text))"
  using assms
  by (auto simp: step_def startSpeak_def audioQueryText_def stopCurrentPlayback_def
      abortCurrent_def killCurrent_def unlinkCurrent_def notifyLipsyncStop_def
      split: option.splits)

lemma run_after_query:
  assumes "stage s r = AwaitQuery" and "r \<notin> aborted s"
  shows "stage (run [QueryResponded r 200, QueryParsed r, SynthesisResponded r 200,
                     BodyRead r audioData stamp, WriteDone r] s) r = Playing stamp"
    and "r \<in> running (run [QueryResponded r 200, QueryParsed r, SynthesisResponded r 200,
                     BodyRead r audioData stamp, WriteDone r] s)"
  using assms
  by (simp_all add: run_def step_def response_ok_def isAwaitWrite_def startPlayback_def
      notifyLipsyncStart_def)

lemma run_Cons: "run (e # evs) s = run evs (step s e)"
  by (simp add: run_def)

lemma speakToPlayback_plays:
  assumes "stage s r = NotStarted" and "isWellFormed (truncateText text)"
    and "currentAbortController s \<noteq> Some r" and "r \<notin> aborted s"
  shows "stage (run (speakToPlayback r text audioData stamp) s) r = Playing stamp
         \<and> r \<in> running (run (speakToPlayback r text audioData stamp) s)"
  unfolding speakToPlayback_def run_Cons [of "Speak r text"]
  using run_after_query [OF step_Speak [OF assms]] by blast

lemma query_failure_confined:
  assumes "stage s r = AwaitQuery" and "\<not> response_ok status"
  shows "step s (QueryResponded r status)
         = s\<lparr>stage := (stage s)(r := Finished (Threw (audioQueryFailed status)))\<rparr>"
  using assms by (simp add: step_def finishCatch_def audioQueryFailed_rethrown)

lemma synthesis_failure_confined:
  assumes "stage s r = AwaitSynthesis" and "\<not> response_ok status"
  shows "step s (SynthesisResponded r status)
         = s\<lparr>stage := (stage s)(r := Finished (Threw (synthesisFailed status)))\<rparr>"
  using assms by (simp add: step_def finishCatch_def synthesisFailed_rethrown)

lemma refused_logged:
  assumes "awaiting (stage s r)" and "str_includes message ''ECONNREFUSED''"
    and "name \<noteq> ''AbortError''"
  shows "step s (Rejected r (Error name message cause))
         = s\<lparr>console := console s
                  @ [Console_error ''VOICEVOX is not running! Please start VOICEVOX first.''],
              stage := (stage s)(r := Finished Returned)\<rparr>"
  using assms by (simp add: step_def finishCatch_def)

lemma abort_not_an_error:
  assumes "awaiting (stage s r)"
  shows "step s (Rejected r (Error ''AbortError'' message cause))
         = s\<lparr>console := console s @ [Console_log ''Speech synthesis cancelled''],
              stage := (stage s)(r := Finished Returned)\<rparr>"
  using assms by (simp add: step_def finishCatch_def)

lemma failure_then_next_plays:
  assumes "step s e = s\<lparr>stage := (stage s)(r := st)\<rparr>"
    and "r \<noteq> r'" and "stage s r' = NotStarted" and "isWellFormed (truncateText text)"
    and "currentAbortController s \<noteq> Some r'" and "r' \<notin> aborted s"
  shows "stage (run (e # speakToPlayback r' text audioData stamp) s) r' = Playing stamp
         \<and> r' \<in> running (run (e # speakToPlayback r' text audioData stamp) s)"
proof -
  let ?s' = "s\<lparr>stage := (stage s)(r := st)\<rparr>"
  have "stage ?s' r' = NotStarted" "currentAbortController ?s' \<noteq> Some r'"
    "r' \<notin> aborted ?s'"
    using assms(2,3,5,6) by simp_all
  from speakToPlayback_plays [OF this(1) assms(4) this(2,3)] assms(1)
  show ?thesis by (simp add: run_Cons)
qed

text \<open>
  What the \<^verbatim>\<open>catch\<close> block of \<^verbatim>\<open>voicevox.ts\<close> does with an error, by its name and its
  message: a message that contains ECONNREFUSED is logged and the call returns; a status
  outside 200-299 ends the call by throwing, changes nothing else, and a request that
  arrives afterwards still reaches its playback; an AbortError is logged with
  \<^verbatim>\<open>console.log\<close> only.
\<close>

lemma failure_handling_by_message:
  assumes "\<not> response_ok status"
    and "str_includes message ''ECONNREFUSED''" and "name \<noteq> ''AbortError''"
    and "r \<noteq> r'" and "stage s r' = NotStarted" and "isWellFormed (truncateText text)"
    and "currentAbortController s \<noteq> Some r'" and "r' \<notin> aborted s"
  shows "(awaiting (stage s r) \<longrightarrow>
           step s (Rejected r (Error name message cause))
           = s\<lparr>console := console s
                  @ [Console_error ''VOICEVOX is not running! Please start VOICEVOX first.''],
                stage := (stage s)(r := Finished Returned)\<rparr>)
       \<and> (stage s r = AwaitQuery \<longrightarrow>
           step s (QueryResponded r status)
           = s\<lparr>stage := (stage s)(r := Finished (Threw (audioQueryFailed status)))\<rparr>
           \<and> stage (run (QueryResponded r status # speakToPlayback r' text audioData stamp) s) r'
             = Playing stamp
           \<and> r' \<in> running
                  (run (QueryResponded r status # speakToPlayback r' text audioData stamp) s))
       \<and> (stage s r = AwaitSynthesis \<longrightarrow>
           step s (SynthesisResponded r status)
           = s\<lparr>stage := (stage s)(r := Finished (Threw (synthesisFailed status)))\<rparr>
           \<and> stage (run (SynthesisResponded r status # speakToPlayback r' text audioData stamp) s)
               r' = Playing stamp
           \<and> r' \<in> running
                  (run (SynthesisResponded r status # speakToPlayback r' text audioData stamp) s))
       \<and> (awaiting (stage s r) \<longrightarrow>
           step s (Rejected r (Error ''AbortError'' abortMessage abortCause))
           = s\<lparr>console := console s @ [Console_log ''Speech synthesis cancelled''],
                stage := (stage s)(r := Finished Returned)\<rparr>)"
proof (intro conjI impI)
  assume "awaiting (stage s r)"
  then show "step s (Rejected r (Error name message cause))
           = s\<lparr>console := console s
                  @ [Console_error ''VOICEVOX is not running! Please start VOICEVOX first.''],
                stage := (stage s)(r := Finished Returned)\<rparr>"
    by (rule refused_logged [OF _ assms(2,3)])
next
  assume "awaiting (stage s r)"
  then show "step s (Rejected r (Error ''AbortError'' abortMessage abortCause))
           = s\<lparr>console := console s @ [Console_log ''Speech synthesis cancelled''],
                stage := (stage s)(r := Finished Returned)\<rparr>"
    by (rule abort_not_an_error)
next
  assume st: "stage s r = AwaitQuery"
  show eq: "step s (QueryResponded r status)
           = s\<lparr>stage := (stage s)(r := Finished (Threw (audioQueryFailed status)))\<rparr>"
    by (rule query_failure_confined [OF st assms(1)])
  from failure_then_next_plays [OF eq assms(4,5,6,7,8)]
  show "stage (run (QueryResponded r status # speakToPlayback r' text audioData stamp) s) r'
             = Playing stamp"
    and "r' \<in> running
                  (run (QueryResponded r status # speakToPlayback r' text audioData stamp) s)"
    by blast+
next
  assume st: "stage s r = AwaitSynthesis"
  show eq: "step s (SynthesisResponded r status)
           = s\<lparr>stage := (stage s)(r := Finished (Threw (synthesisFailed status)))\<rparr>"
    by (rule synthesis_failure_confined [OF st assms(1)])
  from failure_then_next_plays [OF eq assms(4,5,6,7,8)]
  show "stage (run (SynthesisResponded r status # speakToPlayback r' text audioData stamp) s)
               r' = Playing stamp"
    and "r' \<in> running
                  (run (SynthesisResponded r status # speakToPlayback r' text audioData stamp) s)"
    by blast+
qed

section \<open>Properties of the queued orchestrator\<close>

lemmas queue_defs =
  q_run_def q_step_def enqueueSpeech_def q_settle_def q_catch_def q_onClose_def q_onError_def
  startPlayback_def notifyLipsyncStart_def notifyLipsyncStop_def clearProcess_def
  unlinkOwn_def isAwaitWrite_def isPlaying_def awaiting_def response_ok_def q_init_def
  speakToPlayback_def



lemma q_error_then_next_leaks:
  "disk (q_run (speakToPlayback 1 hello wav45 1000 @ [ProcError 1 spawnFailed]
                @ speakToPlayback 2 hello wav45 1001) q_init) = {1000, 1001}"
  by (simp add: queue_defs audioQueryText_hello getWavDuration_wav45 insert_commute)

lemma q_error_then_close_stops_twice:
  "broadcasts (q_run (speakToPlayback 1 hello wav45 1000
                      @ [ProcError 1 spawnFailed, ProcClose 1]) q_init)
   = [StartMotion 1004, StopMotion, StopMotion]"
  by (simp add: queue_defs audioQueryText_hello getWavDuration_wav45)

subsection \<open>The invariant of the orderly runs\<close>

lemma awaiting_simps [simp]:
  "awaiting AwaitQuery" "awaiting AwaitQueryJson" "awaiting AwaitSynthesis" "awaiting AwaitBody"
  "awaiting (AwaitWrite f d)" "\<not> awaiting NotStarted" "\<not> awaiting Waiting"
  "\<not> awaiting (Playing f)" "\<not> awaiting (Finished c)"
  by (simp_all add: awaiting_def)

lemma isPlaying_simps [simp]:
  "isPlaying (Playing f)" "\<not> isPlaying AwaitQuery" "\<not> isPlaying AwaitQueryJson"
  "\<not> isPlaying AwaitSynthesis" "\<not> isPlaying AwaitBody"
  "\<not> isPlaying (AwaitWrite f d)" "\<not> isPlaying NotStarted" "\<not> isPlaying Waiting"
  "\<not> isPlaying (Finished c)"
  by (simp_all add: isPlaying_def)

lemma isFinished_simps [simp]:
  "isFinished (Finished c)" "\<not> isFinished AwaitQuery" "\<not> isFinished AwaitQueryJson"
  "\<not> isFinished AwaitSynthesis" "\<not> isFinished AwaitBody"
  "\<not> isFinished (AwaitWrite f d)" "\<not> isFinished NotStarted" "\<not> isFinished Waiting"
  "\<not> isFinished (Playing f)"
  by (simp_all add: isFinished_def)

lemma not_both: "awaiting st \<Longrightarrow> \<not> isPlaying st"
  by (cases st) simp_all

lemma awaiting_not_finished: "awaiting st \<Longrightarrow> \<not> isFinished st"
  by (cases st) simp_all

lemma baseD:
  assumes "q_base s"
  shows "disk s \<subseteq> set_option (currentTempFile s)"
    and "r \<in> spawned s \<Longrightarrow> spawned s = {r}"
    and "r \<in> spawned s \<Longrightarrow> currentTempFile s = Some (tempFile s r)"
    and "r \<in> spawned s \<Longrightarrow> isPlaying (stage s r) \<or> isFinished (stage s r)"
    and "spawned s = {} \<Longrightarrow> disk s = {}"
    and "running s \<subseteq> spawned s"
    and "stage s r = AwaitWrite f d \<Longrightarrow> tempFile s r = f"
  using assms unfolding q_base_def by blast+

lemma schedD:
  assumes "q_sched s"
  shows "isPlaying (stage s r) \<Longrightarrow> active s = Some r"
    and "isPlaying (stage s r) \<Longrightarrow> r \<in> spawned s"
    and "awaiting (stage s r) \<Longrightarrow> active s = Some r"
    and "list_all (\<lambda>p. stage s (fst p) = Waiting) (pending s)"
    and "distinct (map fst (pending s))"
    and "active s = None \<Longrightarrow> pending s = []"
  using assms unfolding q_sched_def by blast+

lemma base_cong:
  assumes "q_base s" and "disk s' = disk s" and "currentTempFile s' = currentTempFile s"
    and "spawned s' = spawned s" and "running s' \<subseteq> running s" and "tempFile s' = tempFile s"
    and "stage s' = stage s"
  shows "q_base s'"
proof -
  from assms(1) have "running s \<subseteq> spawned s" by (rule baseD)
  with assms(5) have "running s' \<subseteq> spawned s" by blast
  with assms show ?thesis unfolding q_base_def by simp
qed

lemma base_stage:
  assumes "q_base s" and "r \<in> spawned s \<Longrightarrow> isPlaying st \<or> isFinished st"
    and "\<And>f d. st = AwaitWrite f d \<Longrightarrow> tempFile s r = f"
  shows "q_base (s\<lparr>stage := (stage s)(r := st)\<rparr>)"
  unfolding q_base_def
proof (intro conjI allI impI)
  show "disk (s\<lparr>stage := (stage s)(r := st)\<rparr>)
        \<subseteq> set_option (currentTempFile (s\<lparr>stage := (stage s)(r := st)\<rparr>))"
    using baseD(1) [OF assms(1)] by simp
next
  fix x assume "x \<in> spawned (s\<lparr>stage := (stage s)(r := st)\<rparr>)"
  then have x: "x \<in> spawned s" by simp
  show "spawned (s\<lparr>stage := (stage s)(r := st)\<rparr>) = {x}"
    using baseD(2) [OF assms(1) x] by simp
  show "currentTempFile (s\<lparr>stage := (stage s)(r := st)\<rparr>)
        = Some (tempFile (s\<lparr>stage := (stage s)(r := st)\<rparr>) x)"
    using baseD(3) [OF assms(1) x] by simp
  show "isPlaying (stage (s\<lparr>stage := (stage s)(r := st)\<rparr>) x)
        \<or> isFinished (stage (s\<lparr>stage := (stage s)(r := st)\<rparr>) x)"
    using baseD(4) [OF assms(1) x] assms(2) x by (cases "x = r") simp_all
next
  assume "spawned (s\<lparr>stage := (stage s)(r := st)\<rparr>) = {}"
  then show "disk (s\<lparr>stage := (stage s)(r := st)\<rparr>) = {}"
    using baseD(5) [OF assms(1)] by simp
next
  show "running (s\<lparr>stage := (stage s)(r := st)\<rparr>) \<subseteq> spawned (s\<lparr>stage := (stage s)(r := st)\<rparr>)"
    using baseD(6) [OF assms(1)] by simp
next
  fix x f d assume "stage (s\<lparr>stage := (stage s)(r := st)\<rparr>) x = AwaitWrite f d"
  then show "tempFile (s\<lparr>stage := (stage s)(r := st)\<rparr>) x = f"
    using baseD(7) [OF assms(1), of x f d] assms(3) [of f d] by (cases "x = r") simp_all
qed

lemma waiting_not_spawned:
  assumes "q_base s" and "stage s r = Waiting \<or> stage s r = NotStarted \<or> awaiting (stage s r)"
  shows "r \<notin> spawned s"
proof
  assume "r \<in> spawned s"
  from baseD(4) [OF assms(1) this] assms(2) show False
    by (auto dest: not_both awaiting_not_finished)
qed

lemma startFrom_inv:
  assumes "q_base s" and "q_quiet s"
    and "list_all (\<lambda>p. stage s (fst p) = Waiting) ps" and "distinct (map fst ps)"
  shows "q_inv (startFrom ps s)"
  using assms
proof (induction ps arbitrary: s)
  case Nil
  have "q_base (s\<lparr>pending := [], active := None\<rparr>)"
    by (rule base_cong [OF Nil.prems(1)]) simp_all
  moreover have "q_sched (s\<lparr>pending := [], active := None\<rparr>)"
    using Nil.prems(2) by (simp add: q_sched_def q_quiet_def)
  ultimately show ?case by (simp add: q_inv_def)
next
  case (Cons p ps)
  obtain r msg where p: "p = (r, msg)" by (cases p)
  from Cons.prems(3) p have wr: "stage s r = Waiting"
    and rest: "list_all (\<lambda>p. stage s (fst p) = Waiting) ps"
    by simp_all
  from Cons.prems(4) p have notin: "r \<notin> fst ` set ps" and dist: "distinct (map fst ps)"
    by simp_all
  have nsp: "r \<notin> spawned s"
    using waiting_not_spawned [OF Cons.prems(1)] wr by blast
  have quiet: "\<not> awaiting (stage s x)" "\<not> isPlaying (stage s x)" for x
    using Cons.prems(2) by (simp_all add: q_quiet_def)
  have rest': "list_all (\<lambda>p. ((stage s)(r := st)) (fst p) = Waiting) ps" for st
    using rest notin by (auto simp: list_all_iff)
  show ?case
  proof (cases "audioQueryText msg")
    case (Inl e)
    let ?s' = "s\<lparr>console := console s @ fst (speakCatch_main uriMalformed),
                  stage := (stage s)(r := Finished Returned)\<rparr>"
    have b0: "q_base (s\<lparr>stage := (stage s)(r := Finished Returned)\<rparr>)"
      by (rule base_stage [OF Cons.prems(1)]) simp_all
    have b: "q_base ?s'" by (rule base_cong [OF b0]) simp_all
    have q: "q_quiet ?s'" using quiet by (simp add: q_quiet_def)
    have w: "list_all (\<lambda>p. stage ?s' (fst p) = Waiting) ps" using rest' by simp
    from Cons.IH [OF b q w dist] Inl p show ?thesis by simp
  next
    case (Inr t)
    let ?s' = "s\<lparr>sent := sent s @ [t], stage := (stage s)(r := AwaitQuery),
                  pending := ps, active := Some r\<rparr>"
    have b0: "q_base (s\<lparr>stage := (stage s)(r := AwaitQuery)\<rparr>)"
      by (rule base_stage [OF Cons.prems(1)]) (simp_all add: nsp)
    have b: "q_base ?s'" by (rule base_cong [OF b0]) simp_all
    have sch: "q_sched ?s'"
      unfolding q_sched_def using quiet rest' dist by simp
    from b sch Inr p show ?thesis by (simp add: q_inv_def)
  qed
qed

lemma startFrom_disk: "disk (startFrom ps s) = disk s"
  by (induction ps arbitrary: s) (auto split: sum.splits)

lemma only_active_under_way:
  assumes "q_sched s" and "active s = Some r"
    and "awaiting (stage s x) \<or> isPlaying (stage s x)"
  shows "x = r"
proof -
  from assms(3) have "active s = Some x"
    using schedD(1,3) [OF assms(1)] by blast
  with assms(2) show ?thesis by simp
qed

lemma pending_waiting_update:
  assumes "q_sched s" and "stage s r \<noteq> Waiting"
  shows "list_all (\<lambda>p. ((stage s)(r := st)) (fst p) = Waiting) (pending s)"
proof -
  have "fst p \<noteq> r" if "p \<in> set (pending s)" for p
  proof
    assume "fst p = r"
    moreover from schedD(4) [OF assms(1)] that have "stage s (fst p) = Waiting"
      by (simp add: list_all_iff)
    ultimately show False using assms(2) by simp
  qed
  with schedD(4) [OF assms(1)] show ?thesis by (auto simp: list_all_iff)
qed

lemma q_settle_inv:
  assumes "q_base (s\<lparr>stage := (stage s)(r := Finished Returned)\<rparr>)"
    and "\<And>x. awaiting (stage s x) \<or> isPlaying (stage s x) \<Longrightarrow> x = r"
    and "list_all (\<lambda>p. ((stage s)(r := Finished Returned)) (fst p) = Waiting) (pending s)"
    and "distinct (map fst (pending s))"
  shows "q_inv (q_settle r s)"
proof -
  let ?s' = "s\<lparr>stage := (stage s)(r := Finished Returned)\<rparr>"
  have quiet: "q_quiet ?s'"
    unfolding q_quiet_def using assms(2) by auto
  have w: "list_all (\<lambda>p. stage ?s' (fst p) = Waiting) (pending s)" using assms(3) by simp
  from startFrom_inv [OF assms(1) quiet w assms(4)] show ?thesis
    by (simp add: q_settle_def)
qed

lemma inv_fail:
  assumes "q_inv s" and "awaiting (stage s r)"
  shows "q_inv (q_catch r e s)"
proof -
  from assms(1) have b: "q_base s" and sc: "q_sched s" by (simp_all add: q_inv_def)
  let ?s1 = "s\<lparr>console := console s @ fst (speakCatch_main e)\<rparr>"
  have act: "active s = Some r" by (rule schedD(3) [OF sc assms(2)])
  have b0: "q_base (s\<lparr>stage := (stage s)(r := Finished Returned)\<rparr>)"
    by (rule base_stage [OF b]) simp_all
  have b1: "q_base (?s1\<lparr>stage := (stage ?s1)(r := Finished Returned)\<rparr>)"
    by (rule base_cong [OF b0]) simp_all
  have only: "x = r" if "awaiting (stage ?s1 x) \<or> isPlaying (stage ?s1 x)" for x
    using only_active_under_way [OF sc act, of x] that by simp
  have nw: "stage s r \<noteq> Waiting" using assms(2) by auto
  have w: "list_all (\<lambda>p. ((stage ?s1)(r := Finished Returned)) (fst p) = Waiting) (pending ?s1)"
    using pending_waiting_update [OF sc nw] by simp
  have d: "distinct (map fst (pending ?s1))" using schedD(5) [OF sc] by simp
  from q_settle_inv [OF b1 only w d] show ?thesis by (simp add: q_catch_def)
qed

lemma sched_stage:
  assumes "q_sched s" and "active s = Some r" and "stage s r \<noteq> Waiting"
    and "isPlaying st \<Longrightarrow> r \<in> spawned s"
  shows "q_sched (s\<lparr>stage := (stage s)(r := st)\<rparr>)"
  unfolding q_sched_def
proof (intro conjI allI impI)
  fix x assume p: "isPlaying (stage (s\<lparr>stage := (stage s)(r := st)\<rparr>) x)"
  show "active (s\<lparr>stage := (stage s)(r := st)\<rparr>) = Some x"
    using p assms(2) schedD(1) [OF assms(1), of x] by (cases "x = r") simp_all
  show "x \<in> spawned (s\<lparr>stage := (stage s)(r := st)\<rparr>)"
    using p assms(4) schedD(2) [OF assms(1), of x] by (cases "x = r") simp_all
next
  fix x assume "awaiting (stage (s\<lparr>stage := (stage s)(r := st)\<rparr>) x)"
  then show "active (s\<lparr>stage := (stage s)(r := st)\<rparr>) = Some x"
    using assms(2) schedD(3) [OF assms(1), of x] by (cases "x = r") simp_all
next
  show "list_all (\<lambda>p. stage (s\<lparr>stage := (stage s)(r := st)\<rparr>) (fst p) = Waiting)
          (pending (s\<lparr>stage := (stage s)(r := st)\<rparr>))"
    using pending_waiting_update [OF assms(1,3)] by simp
next
  show "distinct (map fst (pending (s\<lparr>stage := (stage s)(r := st)\<rparr>)))"
    using schedD(5) [OF assms(1)] by simp
next
  assume "active (s\<lparr>stage := (stage s)(r := st)\<rparr>) = None"
  then show "pending (s\<lparr>stage := (stage s)(r := st)\<rparr>) = []"
    using assms(2) by simp
qed

lemma inv_move:
  assumes "q_inv s" and "awaiting (stage s r)" and "awaiting st"
    and "\<And>f d. st \<noteq> AwaitWrite f d"
  shows "q_inv (s\<lparr>stage := (stage s)(r := st)\<rparr>)"
proof -
  from assms(1) have b: "q_base s" and sc: "q_sched s" by (simp_all add: q_inv_def)
  have nsp: "r \<notin> spawned s" using waiting_not_spawned [OF b] assms(2) by blast
  have act: "active s = Some r" by (rule schedD(3) [OF sc assms(2)])
  have nw: "stage s r \<noteq> Waiting" using assms(2) by auto
  have "q_base (s\<lparr>stage := (stage s)(r := st)\<rparr>)"
    by (rule base_stage [OF b]) (simp_all add: nsp assms(4))
  moreover have "q_sched (s\<lparr>stage := (stage s)(r := st)\<rparr>)"
    using assms(3) by (intro sched_stage [OF sc act nw]) (simp add: not_both)
  ultimately show ?thesis by (simp add: q_inv_def)
qed

lemma base_tempFile:
  assumes "q_base s" and "r \<notin> spawned s" and "\<And>f d. stage s r \<noteq> AwaitWrite f d"
  shows "q_base (s\<lparr>tempFile := (tempFile s)(r := f)\<rparr>)"
  unfolding q_base_def
proof (intro conjI allI impI)
  show "disk (s\<lparr>tempFile := (tempFile s)(r := f)\<rparr>)
        \<subseteq> set_option (currentTempFile (s\<lparr>tempFile := (tempFile s)(r := f)\<rparr>))"
    using baseD(1) [OF assms(1)] by simp
next
  fix x assume "x \<in> spawned (s\<lparr>tempFile := (tempFile s)(r := f)\<rparr>)"
  then have x: "x \<in> spawned s" by simp
  with assms(2) have ne: "x \<noteq> r" by auto
  show "spawned (s\<lparr>tempFile := (tempFile s)(r := f)\<rparr>) = {x}"
    using baseD(2) [OF assms(1) x] by simp
  show "currentTempFile (s\<lparr>tempFile := (tempFile s)(r := f)\<rparr>)
        = Some (tempFile (s\<lparr>tempFile := (tempFile s)(r := f)\<rparr>) x)"
    using baseD(3) [OF assms(1) x] ne by simp
  show "isPlaying (stage (s\<lparr>tempFile := (tempFile s)(r := f)\<rparr>) x)
        \<or> isFinished (stage (s\<lparr>tempFile := (tempFile s)(r := f)\<rparr>) x)"
    using baseD(4) [OF assms(1) x] by simp
next
  assume "spawned (s\<lparr>tempFile := (tempFile s)(r := f)\<rparr>) = {}"
  then show "disk (s\<lparr>tempFile := (tempFile s)(r := f)\<rparr>) = {}"
    using baseD(5) [OF assms(1)] by simp
next
  show "running (s\<lparr>tempFile := (tempFile s)(r := f)\<rparr>)
        \<subseteq> spawned (s\<lparr>tempFile := (tempFile s)(r := f)\<rparr>)"
    using baseD(6) [OF assms(1)] by simp
next
  fix x g d assume "stage (s\<lparr>tempFile := (tempFile s)(r := f)\<rparr>) x = AwaitWrite g d"
  then have st: "stage s x = AwaitWrite g d" by simp
  with assms(3) have "x \<noteq> r" by auto
  with baseD(7) [OF assms(1) st] show "tempFile (s\<lparr>tempFile := (tempFile s)(r := f)\<rparr>) x = g"
    by simp
qed

lemma inv_body:
  assumes "q_inv s" and "stage s r = AwaitBody"
  shows "q_inv (s\<lparr>tempFile := (tempFile s)(r := f), stage := (stage s)(r := AwaitWrite f d)\<rparr>)"
proof -
  from assms(1) have b: "q_base s" and sc: "q_sched s" by (simp_all add: q_inv_def)
  have aw: "awaiting (stage s r)" using assms(2) by simp
  have nsp: "r \<notin> spawned s" using waiting_not_spawned [OF b] aw by blast
  have act: "active s = Some r" by (rule schedD(3) [OF sc aw])
  let ?s1 = "s\<lparr>tempFile := (tempFile s)(r := f)\<rparr>"
  have b1: "q_base ?s1" by (rule base_tempFile [OF b nsp]) (simp add: assms(2))
  have "q_base (?s1\<lparr>stage := (stage ?s1)(r := AwaitWrite f d)\<rparr>)"
    by (rule base_stage [OF b1]) (simp_all add: nsp)
  moreover have sc1: "q_sched ?s1" using sc by (simp add: q_sched_def)
  have "q_sched (?s1\<lparr>stage := (stage ?s1)(r := AwaitWrite f d)\<rparr>)"
    by (rule sched_stage [OF sc1]) (simp_all add: act assms(2))
  ultimately show ?thesis by (simp add: q_inv_def)
qed

lemma inv_write:
  assumes "q_inv s" and "stage s r = AwaitWrite f d" and "spawned s = {}"
  shows "q_inv (startPlayback r f d s)"
proof -
  from assms(1) have b: "q_base s" and sc: "q_sched s" by (simp_all add: q_inv_def)
  have aw: "awaiting (stage s r)" using assms(2) by simp
  have act: "active s = Some r" by (rule schedD(3) [OF sc aw])
  have tf: "tempFile s r = f" by (rule baseD(7) [OF b assms(2)])
  have dsk: "disk s = {}" by (rule baseD(5) [OF b assms(3)])
  have run: "running s = {}" using baseD(6) [OF b] assms(3) by simp
  have others: "\<not> isPlaying (stage s x)" "x \<noteq> r \<Longrightarrow> \<not> awaiting (stage s x)" for x
  proof -
    show "\<not> isPlaying (stage s x)"
      using schedD(2) [OF sc, of x] assms(3) by auto
    show "\<not> awaiting (stage s x)" if "x \<noteq> r"
      using only_active_under_way [OF sc act, of x] that by blast
  qed
  let ?s' = "startPlayback r f d s"
  have fields: "disk ?s' = {f}" "currentTempFile ?s' = Some f" "spawned ?s' = {r}"
    "running ?s' = {r}" "tempFile ?s' = tempFile s" "stage ?s' = (stage s)(r := Playing f)"
    "pending ?s' = pending s" "active ?s' = active s"
    using dsk run assms(3) by (simp_all add: startPlayback_def notifyLipsyncStart_def Let_def)
  have "q_base ?s'"
    unfolding q_base_def fields
    using tf baseD(7) [OF b] by auto
  moreover have "q_sched ?s'"
    unfolding q_sched_def fields
    using act others schedD(5) [OF sc] pending_waiting_update [OF sc, of r "Playing f"] assms(2)
    by auto
  ultimately show ?thesis by (simp add: q_inv_def)
qed

lemma close_fields:
  "stage (unlinkOwn r (notifyLipsyncStop (clearProcess r s))) = stage s"
  "spawned (unlinkOwn r (notifyLipsyncStop (clearProcess r s))) = spawned s"
  "running (unlinkOwn r (notifyLipsyncStop (clearProcess r s))) = running s"
  "pending (unlinkOwn r (notifyLipsyncStop (clearProcess r s))) = pending s"
  "active (unlinkOwn r (notifyLipsyncStop (clearProcess r s))) = active s"
  "tempFile (unlinkOwn r (notifyLipsyncStop (clearProcess r s))) = tempFile s"
  "currentTempFile s = Some (tempFile s r) \<Longrightarrow>
     disk (unlinkOwn r (notifyLipsyncStop (clearProcess r s))) = disk s - {tempFile s r}"
  "currentTempFile s = Some (tempFile s r) \<Longrightarrow>
     currentTempFile (unlinkOwn r (notifyLipsyncStop (clearProcess r s))) = None"
  by (simp_all add: unlinkOwn_def notifyLipsyncStop_def clearProcess_def)

lemma inv_close:
  assumes "q_inv s" and "r \<in> spawned s"
  shows "q_inv (q_onClose r s)" and "disk (q_onClose r s) = {}"
proof -
  from assms(1) have b: "q_base s" and sc: "q_sched s" by (simp_all add: q_inv_def)
  have only: "spawned s = {r}" by (rule baseD(2) [OF b assms(2)])
  have cur: "currentTempFile s = Some (tempFile s r)" by (rule baseD(3) [OF b assms(2)])
  have dsk: "disk s \<subseteq> {tempFile s r}" using baseD(1) [OF b] cur by simp
  have run: "running s \<subseteq> {r}" using baseD(6) [OF b] only by simp
  define s1 where "s1 = unlinkOwn r (notifyLipsyncStop (clearProcess r s))"
  define s2 where "s2 = s1\<lparr>spawned := spawned s1 - {r}, running := running s1 - {r}\<rparr>"
  have s2: "stage s2 = stage s" "spawned s2 = {}" "running s2 = {}" "disk s2 = {}"
    "currentTempFile s2 = None" "pending s2 = pending s" "active s2 = active s"
    "tempFile s2 = tempFile s"
    unfolding s2_def s1_def using only run dsk cur by (auto simp: close_fields)
  have st1: "stage s1 = stage s" unfolding s1_def by (simp add: close_fields)
  have eq: "q_onClose r s = (if isPlaying (stage s r) then q_settle r s2 else s2)"
    by (simp add: q_onClose_def Let_def s1_def [symmetric] s2_def [symmetric] st1)
  have none_playing: "\<not> isPlaying (stage s x)" if "x \<noteq> r" for x
    using schedD(2) [OF sc, of x] only that by auto
  have settle_disk: "disk (q_settle r s2) = {}"
    by (simp add: q_settle_def startFrom_disk s2)
  show "disk (q_onClose r s) = {}"
    by (simp add: eq settle_disk s2)
  show "q_inv (q_onClose r s)"
  proof (cases "isPlaying (stage s r)")
    case True
    then have act: "active s = Some r" by (rule schedD(1) [OF sc])
    have b3: "q_base (s2\<lparr>stage := (stage s2)(r := Finished Returned)\<rparr>)"
      unfolding q_base_def using s2 baseD(7) [OF b] by auto
    have under: "x = r" if "awaiting (stage s2 x) \<or> isPlaying (stage s2 x)" for x
      using only_active_under_way [OF sc act, of x] that by (simp add: s2)
    have nw: "stage s r \<noteq> Waiting" using True by auto
    have w: "list_all (\<lambda>p. ((stage s2)(r := Finished Returned)) (fst p) = Waiting) (pending s2)"
      using pending_waiting_update [OF sc nw] by (simp add: s2)
    have d: "distinct (map fst (pending s2))" using schedD(5) [OF sc] by (simp add: s2)
    from q_settle_inv [OF b3 under w d] True show ?thesis by (simp add: eq)
  next
    case False
    have "q_base s2"
      unfolding q_base_def using s2 baseD(7) [OF b] by auto
    moreover have np: "\<not> isPlaying (stage s x)" for x
      using False none_playing [of x] by (cases "x = r") simp_all
    have "q_sched s2"
      unfolding q_sched_def
      using np schedD(3,4,5,6) [OF sc]
      by (simp add: s2)
    ultimately show ?thesis using False by (simp add: eq q_inv_def)
  qed
qed

lemma inv_error:
  assumes "q_inv s" and "r \<in> spawned s" and "isPlaying (stage s r)"
  shows "q_inv (q_onError r e s)"
proof -
  from assms(1) have b: "q_base s" and sc: "q_sched s" by (simp_all add: q_inv_def)
  have act: "active s = Some r" by (rule schedD(1) [OF sc assms(3)])
  define s1 where "s1 = notifyLipsyncStop (clearProcess r s)"
  define s3 where "s3 = s1\<lparr>running := running s1 - {r},
                              console := console s1 @ fst (speakCatch_main e)\<rparr>"
  have s3: "stage s3 = stage s" "spawned s3 = spawned s" "disk s3 = disk s"
    "currentTempFile s3 = currentTempFile s" "tempFile s3 = tempFile s"
    "running s3 = running s - {r}" "pending s3 = pending s" "active s3 = active s"
    unfolding s3_def s1_def by (simp_all add: notifyLipsyncStop_def clearProcess_def)
  have eq: "q_onError r e s = q_settle r s3"
    by (simp add: q_onError_def q_catch_def Let_def s1_def [symmetric] s3_def)
  have b0: "q_base (s\<lparr>stage := (stage s)(r := Finished Returned)\<rparr>)"
    by (rule base_stage [OF b]) simp_all
  have b3: "q_base (s3\<lparr>stage := (stage s3)(r := Finished Returned)\<rparr>)"
    by (rule base_cong [OF b0]) (auto simp: s3)
  have under: "x = r" if "awaiting (stage s3 x) \<or> isPlaying (stage s3 x)" for x
    using only_active_under_way [OF sc act, of x] that by (simp add: s3)
  have nw: "stage s r \<noteq> Waiting" using assms(3) by auto
  have w: "list_all (\<lambda>p. ((stage s3)(r := Finished Returned)) (fst p) = Waiting) (pending s3)"
    using pending_waiting_update [OF sc nw] by (simp add: s3)
  have d: "distinct (map fst (pending s3))" using schedD(5) [OF sc] by (simp add: s3)
  from q_settle_inv [OF b3 under w d] show ?thesis by (simp add: eq)
qed

lemma startFrom_single:
  "startFrom [(r, msg)] (s\<lparr>stage := (stage s)(r := Waiting)\<rparr>) = startFrom [(r, msg)] s"
  by (simp split: sum.splits)

lemma inv_enqueue:
  assumes "q_inv s" and "stage s r = NotStarted"
  shows "q_inv (enqueueSpeech r msg s)"
proof -
  from assms(1) have b: "q_base s" and sc: "q_sched s" by (simp_all add: q_inv_def)
  have nsp: "r \<notin> spawned s" using waiting_not_spawned [OF b] assms(2) by blast
  let ?w = "s\<lparr>stage := (stage s)(r := Waiting)\<rparr>"
  have bw: "q_base ?w" by (rule base_stage [OF b]) (simp_all add: nsp)
  have notin: "r \<notin> fst ` set (pending s)"
  proof
    assume "r \<in> fst ` set (pending s)"
    then obtain p where "p \<in> set (pending s)" and "fst p = r" by auto
    with schedD(4) [OF sc] have "stage s r = Waiting" by (auto simp: list_all_iff)
    with assms(2) show False by simp
  qed
  show ?thesis
  proof (cases "active s")
    case None
    then have pe: "pending s = []" by (rule schedD(6) [OF sc])
    have quiet: "q_quiet ?w"
      unfolding q_quiet_def
    proof (intro allI conjI)
      fix x
      show "\<not> awaiting (stage ?w x)"
        using schedD(3) [OF sc, of x] None by (cases "x = r") auto
      show "\<not> isPlaying (stage ?w x)"
        using schedD(1) [OF sc, of x] None by (cases "x = r") auto
    qed
    have "q_inv (startFrom [(r, msg)] ?w)"
      by (rule startFrom_inv [OF bw quiet]) simp_all
    then have "q_inv (startFrom [(r, msg)] s)"
      by (simp only: startFrom_single)
    moreover have "enqueueSpeech r msg s = startFrom [(r, msg)] s"
      using None pe by (simp add: enqueueSpeech_def)
    ultimately show ?thesis by simp
  next
    case (Some a)
    let ?s' = "s\<lparr>stage := (stage s)(r := Waiting), pending := pending s @ [(r, msg)]\<rparr>"
    have b': "q_base ?s'" by (rule base_cong [OF bw]) simp_all
    have old: "list_all (\<lambda>p. ((stage s)(r := Waiting)) (fst p) = Waiting) (pending s)"
      using schedD(4) [OF sc] by (auto simp: list_all_iff)
    have sc': "q_sched ?s'"
      unfolding q_sched_def
    proof (intro conjI allI impI)
      fix x assume p: "isPlaying (stage ?s' x)"
      then have "x \<noteq> r" by auto
      with p have px: "isPlaying (stage s x)" by simp
      show "active ?s' = Some x" using schedD(1) [OF sc px] by simp
      show "x \<in> spawned ?s'" using schedD(2) [OF sc px] by simp
    next
      fix x assume p: "awaiting (stage ?s' x)"
      then have "x \<noteq> r" by auto
      with p have "awaiting (stage s x)" by simp
      then show "active ?s' = Some x" using schedD(3) [OF sc] by simp
    next
      show "list_all (\<lambda>p. stage ?s' (fst p) = Waiting) (pending ?s')"
        using old by simp
    next
      show "distinct (map fst (pending ?s'))"
        using schedD(5) [OF sc] notin by simp
    next
      assume "active ?s' = None"
      with Some show "pending ?s' = []" by simp
    qed
    from b' sc' Some show ?thesis by (simp add: enqueueSpeech_def q_inv_def)
  qed
qed

lemma q_step_inv:
  assumes "q_inv s" and "\<not> writesBeforeClose e s"
  shows "q_inv (q_step s e)"
proof (cases "enabled e s")
  case False
  with assms show ?thesis by (simp add: q_step_def)
next
  case True
  show ?thesis
  proof (cases e)
    case (Speak r msg)
    with True assms show ?thesis by (simp add: q_step_def inv_enqueue)
  next
    case (QueryResponded r status)
    with True assms show ?thesis by (simp add: q_step_def inv_fail inv_move)
  next
    case (QueryParsed r)
    with True assms show ?thesis by (simp add: q_step_def inv_move)
  next
    case (SynthesisResponded r status)
    with True assms show ?thesis by (simp add: q_step_def inv_fail inv_move)
  next
    case (BodyRead r d f)
    with True assms show ?thesis by (simp add: q_step_def inv_body)
  next
    case (WriteDone r)
    with True assms(2) have sp: "spawned s = {}" by simp
    from WriteDone True obtain f d where "stage s r = AwaitWrite f d"
      by (auto simp: isAwaitWrite_def split: stage.splits)
    with WriteDone True assms(1) sp show ?thesis
      by (simp add: q_step_def inv_write)
  next
    case (Rejected r x)
    with True assms show ?thesis by (simp add: q_step_def inv_fail)
  next
    case (ProcClose r)
    with True assms show ?thesis by (simp add: q_step_def inv_close)
  next
    case (ProcError r x)
    with True assms show ?thesis by (simp add: q_step_def inv_error)
  qed
qed

lemma q_run_Cons: "q_run (e # evs) s = q_run evs (q_step s e)"
  by (simp add: q_run_def)

lemma q_run_inv: "q_inv s \<Longrightarrow> orderly evs s \<Longrightarrow> q_inv (q_run evs s)"
proof (induction evs arbitrary: s)
  case Nil
  then show ?case by (simp add: q_run_def)
next
  case (Cons e evs)
  from Cons.prems(2) have e: "\<not> writesBeforeClose e s" and rest: "orderly evs (q_step s e)"
    by simp_all
  from Cons.IH [OF q_step_inv [OF Cons.prems(1) e] rest]
  show ?case by (simp add: q_run_Cons)
qed

lemma q_init_inv: "q_inv q_init"
  by (simp add: q_inv_def q_base_def q_sched_def q_init_def)

lemma q_one_player:
  assumes "orderly evs q_init"
  shows "card (running (q_run evs q_init)) \<le> 1"
proof -
  let ?s = "q_run evs q_init"
  have "q_inv ?s" by (rule q_run_inv [OF q_init_inv assms])
  then have b: "q_base ?s" by (simp add: q_inv_def)
  show ?thesis
  proof (cases "spawned ?s = {}")
    case True
    with baseD(6) [OF b] show ?thesis by simp
  next
    case False
    then obtain r where "r \<in> spawned ?s" by blast
    then have "spawned ?s = {r}" by (rule baseD(2) [OF b])
    with baseD(6) [OF b] have "running ?s \<subseteq> {r}" by simp
    then have "card (running ?s) \<le> card {r}" by (intro card_mono) simp_all
    then show ?thesis by simp
  qed
qed



subsection \<open>A refused connection\<close>

lemma fetch_failed_no_code: "\<not> str_includes ''fetch failed'' ''ECONNREFUSED''"
  by (rule includes_needs_E) simp

lemma speakCatch_main_returns: "snd (speakCatch_main e) = Returned"
  by (simp add: speakCatch_main_def)

lemma speakCatch_main_value_message:
  "str_includes message ''ECONNREFUSED'' \<Longrightarrow>
   speakCatch_main (Value (Some message))
   = ([Console_error ''VOICEVOX is not running! Please start VOICEVOX first.''], Returned)"
  by (auto simp: speakCatch_main_def messageOf_def str_includes_def)

lemma q_failure_next_starts:
  "stage (q_run [Speak 1 hello, Speak 2 hello, QueryResponded 1 500] q_init) 1 = Finished Returned
   \<and> stage (q_run [Speak 1 hello, Speak 2 hello, QueryResponded 1 500] q_init) 2 = AwaitQuery
   \<and> active (q_run [Speak 1 hello, Speak 2 hello, QueryResponded 1 500] q_init) = Some 2"
  by (simp add: queue_defs audioQueryText_hello)

text \<open>
  C6 at its failing input. The synthesis service is down and \<^verbatim>\<open>fetch\<close> rejects with the
  TypeError "fetch failed", which carries ECONNREFUSED on its cause and not in its message.
  The \<^verbatim>\<open>catch\<close> block of \<^verbatim>\<open>voicevox.ts\<close> looks for ECONNREFUSED in the message, finds
  none, logs nothing and rethrows: the call ends by throwing. The \<^verbatim>\<open>catch\<close> block of the
  Electron main process logs the error under "Speech error:" and the task returns.
\<close>

theorem refused_connection_rethrown:
  "speakCatch fetchRefused = ([], Threw fetchRefused)
   \<and> feasible [Speak 1 hello, Rejected 1 fetchRefused] init
   \<and> stage (run [Speak 1 hello, Rejected 1 fetchRefused] init) 1 = Finished (Threw fetchRefused)
   \<and> console (run [Speak 1 hello, Rejected 1 fetchRefused] init) = []
   \<and> speakCatch_main fetchRefused = ([Console_error ''Speech error:''], Returned)
   \<and> stage (q_run [Speak 1 hello, Rejected 1 fetchRefused] q_init) 1 = Finished Returned
   \<and> console (q_run [Speak 1 hello, Rejected 1 fetchRefused] q_init)
     = [Console_error ''Speech error:'']"
  by (simp add: fetchRefused_def fetch_failed_no_code orchestrator_defs queue_defs
      speakCatch_main_def messageOf_def audioQueryText_hello)

section \<open>Properties of the tailer\<close>

lemma latest_a: "findLatestSessionFile [(''a.jsonl'', n)] = Some ''a.jsonl''"
  by (simp add: findLatestSessionFile_def suffix_def)

lemma latest_b: "findLatestSessionFile [(''a.jsonl'', 2), (''b.jsonl'', 3)] = Some ''b.jsonl''"
  by (simp add: findLatestSessionFile_def suffix_def)

lemma latest_a_again:
  "findLatestSessionFile [(''a.jsonl'', 4), (''b.jsonl'', 3)] = Some ''a.jsonl''"
  by (simp add: findLatestSessionFile_def suffix_def)

lemmas tailer_defs =
  t_run_def adoptLatest_def rotates_def beginPass_def lastPosition_def newLines_def
  forwardOf_def isBlank_def whitespace_def demoParse_def extractTextFromContent_def
  watching_def watchProject_def t_init_def noPass_def latest_a latest_b latest_a_again

text \<open>
  C3 at its failing interleaving. The first pass forwards message \<open>x1\<close> and waits for it
  to be spoken; its uuid is not recorded yet. The newest file changes to \<open>b.jsonl\<close> and
  back, which resets the offset of \<open>a.jsonl\<close> to 0, and the third pass scans the line of
  \<open>x1\<close> again and forwards it a second time.
\<close>

theorem overlapping_passes_forward_twice:
  "forwarded (t_run demoParse rotationSchedule watching)
   = [(Some ''x1'', ''hi''), (Some ''x1'', ''hi'')]"
  by (simp add: rotationSchedule_def tailer_defs)

subsection \<open>Passes that do not overlap\<close>

lemma forwardOf_fresh: "forwardOf parse st line = Some (uuid, text) \<Longrightarrow> uuid \<notin> processedMessages st"
  by (auto simp: forwardOf_def split: if_splits parsed.splits option.splits)

lemma processLine_once: "once st \<Longrightarrow> once (processLine parse st line)"
proof (cases "forwardOf parse st line")
  case None
  assume "once st"
  with None show ?thesis by (simp add: processLine_def)
next
  case (Some p)
  assume o: "once st"
  obtain uuid msg where p: "p = (uuid, msg)" by (cases p)
  with Some have "uuid \<notin> processedMessages st" by (simp add: forwardOf_fresh)
  with o have "uuid \<notin> fst ` set (forwarded st)" by (auto simp: once_def)
  with o Some p show ?thesis by (auto simp: processLine_def once_def)
qed

lemma foldl_processLine_once: "once st \<Longrightarrow> once (foldl (processLine parse) st ls)"
  by (induction ls arbitrary: st) (simp_all add: processLine_once)

lemma processNewLines_once: "once st \<Longrightarrow> once (processNewLines parse fs filePath st)"
proof -
  assume o: "once st"
  have "once (st\<lparr>filePositions := m\<rparr>)" for m using o by (simp add: once_def)
  then show ?thesis using o
    by (simp add: processNewLines_def foldl_processLine_once split: option.splits)
qed

lemma onTimer_once: "once st \<Longrightarrow> once (onTimer parse files fs st)"
proof -
  assume o: "once st"
  have "once (adoptLatest files st)" using o by (simp add: adoptLatest_def once_def)
  then show ?thesis
    by (simp add: onTimer_def Let_def processNewLines_once split: option.splits)
qed

lemma uninterrupted_passes_forward_once:
  "once st \<Longrightarrow> once (foldl (\<lambda>st (files, fs). onTimer parse files fs st) st timers)"
  by (induction timers arbitrary: st) (auto simp: onTimer_once)

lemma recorded_uuid_not_forwarded_again:
  "uuid \<in> processedMessages st \<Longrightarrow>
   forwarded (processNewLines parse fs filePath st) = forwarded st @ new \<Longrightarrow>
   uuid \<notin> fst ` set new"
proof -
  have step: "\<exists>new. forwarded (processLine parse st line) = forwarded st @ new
                \<and> uuid \<notin> fst ` set new
                \<and> processedMessages st \<subseteq> processedMessages (processLine parse st line)"
    if "uuid \<in> processedMessages st" for st line
  proof (cases "forwardOf parse st line")
    case None
    then show ?thesis by (simp add: processLine_def)
  next
    case (Some p)
    obtain u msg where p: "p = (u, msg)" by (cases p)
    with Some have "u \<notin> processedMessages st" by (simp add: forwardOf_fresh)
    with that have "u \<noteq> uuid" by auto
    with Some p show ?thesis by (auto simp: processLine_def)
  qed
  have loop: "\<exists>new. forwarded (foldl (processLine parse) st ls) = forwarded st @ new
                \<and> uuid \<notin> fst ` set new"
    if "uuid \<in> processedMessages st" for st ls
    using that
  proof (induction ls arbitrary: st)
    case Nil
    then show ?case by simp
  next
    case (Cons l ls)
    from step [OF Cons.prems] obtain n1 where
      n1: "forwarded (processLine parse st l) = forwarded st @ n1" "uuid \<notin> fst ` set n1"
      and sub: "processedMessages st \<subseteq> processedMessages (processLine parse st l)"
      by blast
    from sub Cons.prems have "uuid \<in> processedMessages (processLine parse st l)" by blast
    from Cons.IH [OF this] obtain n2 where
      n2: "forwarded (foldl (processLine parse) (processLine parse st l) ls)
           = forwarded (processLine parse st l) @ n2" "uuid \<notin> fst ` set n2"
      by blast
    from n1 n2 have "forwarded (foldl (processLine parse) st (l # ls)) = forwarded st @ (n1 @ n2)"
      and "uuid \<notin> fst ` set (n1 @ n2)"
      by auto
    then show ?case by blast
  qed
  assume u: "uuid \<in> processedMessages st"
    and f: "forwarded (processNewLines parse fs filePath st) = forwarded st @ new"
  have "\<exists>n. forwarded (processNewLines parse fs filePath st) = forwarded st @ n
            \<and> uuid \<notin> fst ` set n"
  proof (cases "fs filePath")
    case None
    then show ?thesis by (simp add: processNewLines_def)
  next
    case (Some content)
    show ?thesis
    proof (cases "length content \<le> lastPosition st filePath")
      case True
      with Some show ?thesis by (simp add: processNewLines_def)
    next
      case False
      let ?st1 = "st\<lparr>filePositions := (filePositions st)(filePath \<mapsto> length content)\<rparr>"
      have "uuid \<in> processedMessages ?st1" using u by simp
      from loop [OF this, of "newLines content (lastPosition st filePath)"] Some False
      show ?thesis by (simp add: processNewLines_def)
    qed
  qed
  with f show ?thesis by auto
qed

subsection \<open>A pass alone is the uninterrupted loop\<close>

lemma forwardOf_sameLog: "sameLog st st' \<Longrightarrow> forwardOf parse st line = forwardOf parse st' line"
  by (simp add: sameLog_def forwardOf_def split: parsed.splits)

lemma finishPass_done:
  "awaitingSend (passes st k) = None \<Longrightarrow> finishPass parse k n st = st"
  by (cases n) simp_all

lemma pass_alone:
  assumes "sameLog st st'" and "length ls \<le> n"
  shows "sameLog (finishPass parse k n (advance parse k ls st)) (foldl (processLine parse) st' ls)"
  using assms
proof (induction ls arbitrary: st st' n)
  case Nil
  then show ?case
    by (simp add: finishPass_done noPass_def sameLog_def)
next
  case (Cons l ls)
  show ?case
  proof (cases "forwardOf parse st l")
    case None
    with Cons.prems(1) have "forwardOf parse st' l = None"
      by (simp add: forwardOf_sameLog)
    with None Cons.IH [OF Cons.prems(1), of n] Cons.prems(2) show ?thesis
      by (simp add: processLine_def)
  next
    case (Some p)
    obtain uuid msg where p: "p = (uuid, msg)" by (cases p)
    from Cons.prems(2) obtain m where n: "n = Suc m" and m: "length ls \<le> m"
      by (cases n) simp_all
    let ?a = "st\<lparr>forwarded := forwarded st @ [(uuid, msg)],
                  passes := (passes st)(k := \<lparr>todo = ls, awaitingSend = Some uuid\<rparr>)\<rparr>"
    let ?b = "?a\<lparr>processedMessages := insert uuid (processedMessages ?a)\<rparr>"
    let ?c = "st'\<lparr>forwarded := forwarded st' @ [(uuid, msg)],
                   processedMessages := insert uuid (processedMessages st')\<rparr>"
    have same: "sameLog ?b ?c" using Cons.prems(1) by (simp add: sameLog_def)
    have adv: "advance parse k (l # ls) st = ?a" using Some p by simp
    have fin: "finishPass parse k n ?a = finishPass parse k m (advance parse k ls ?b)"
      by (simp add: n)
    have seq: "processLine parse st' l = ?c"
      using Some p Cons.prems(1) by (simp add: processLine_def forwardOf_sameLog [of st st'])
    from Cons.IH [OF same m] adv fin seq show ?thesis by simp
  qed
qed

lemma length_splitLines: "length (splitLines s) \<le> Suc (length s)"
  by (induction s) (auto split: list.splits)

lemma length_newLines: "length (newLines content offset) \<le> Suc (length content)"
proof -
  have "length (newLines content offset)
        \<le> Suc (length (take (length content - offset) (drop offset content)))"
    unfolding newLines_def by (rule length_splitLines)
  also have "\<dots> \<le> Suc (length content)" by simp
  finally show ?thesis .
qed

lemma beginPass_alone:
  assumes "awaitingSend (passes st k) = None" and "fs filePath = Some content"
  shows "sameLog (finishPass parse k (Suc (length content)) (beginPass parse k fs filePath st))
           (processNewLines parse fs filePath st)"
proof (cases "length content \<le> lastPosition st filePath")
  case True
  with assms show ?thesis
    by (simp add: beginPass_def processNewLines_def sameLog_def)
next
  case False
  let ?st1 = "st\<lparr>filePositions := (filePositions st)(filePath \<mapsto> length content)\<rparr>"
  have "sameLog ?st1 ?st1" by (simp add: sameLog_def)
  from pass_alone
      [OF this length_newLines [of content "lastPosition st filePath"], where parse = parse and k = k]
    assms(2) False
  show ?thesis by (simp add: beginPass_def processNewLines_def)
qed

subsection \<open>Offsets\<close>

lemma foldl_processLine_fields:
  "filePositions (foldl (processLine parse) st ls) = filePositions st
   \<and> currentSessionFile (foldl (processLine parse) st ls) = currentSessionFile st"
proof (induction ls arbitrary: st)
  case Nil
  show ?case by simp
next
  case (Cons l ls)
  have "filePositions (processLine parse st l) = filePositions st
        \<and> currentSessionFile (processLine parse st l) = currentSessionFile st"
    by (simp add: processLine_def split: option.splits)
  with Cons.IH [of "processLine parse st l"] show ?case by simp
qed

lemma processNewLines_reads_new_bytes:
  assumes "fs filePath = Some content" and "lastPosition st filePath < length content"
  shows "processNewLines parse fs filePath st
         = foldl (processLine parse)
             (st\<lparr>filePositions := (filePositions st)(filePath \<mapsto> length content)\<rparr>)
             (splitLines (drop (lastPosition st filePath) content))"
  using assms by (simp add: processNewLines_def newLines_def)

lemma processNewLines_position:
  assumes "fs filePath = Some content"
  shows "lastPosition (processNewLines parse fs filePath st) p
         = (if p = filePath \<and> lastPosition st filePath < length content then length content
            else lastPosition st p)"
  using assms
  by (simp add: processNewLines_def lastPosition_def foldl_processLine_fields)

lemma processNewLines_missing: "fs filePath = None \<Longrightarrow> processNewLines parse fs filePath st = st"
  by (simp add: processNewLines_def)

lemma processNewLines_monotone:
  "lastPosition st p \<le> lastPosition (processNewLines parse fs filePath st) p"
proof (cases "fs filePath")
  case None
  then show ?thesis by (simp add: processNewLines_missing)
next
  case (Some content)
  then show ?thesis by (simp add: processNewLines_position)
qed

lemma processNewLines_again:
  assumes "fs filePath = Some content"
  shows "processNewLines parse' fs filePath (processNewLines parse fs filePath st)
         = processNewLines parse fs filePath st"
proof -
  have "length content \<le> lastPosition (processNewLines parse fs filePath st) filePath"
    using assms by (simp add: processNewLines_position)
  with assms show ?thesis
    by (simp add: processNewLines_def [of parse' fs filePath])
qed

lemma onTimer_no_rotation:
  assumes "\<not> rotates files st"
  shows "lastPosition st p \<le> lastPosition (onTimer parse files fs st) p"
  using assms
  by (simp add: onTimer_def adoptLatest_def Let_def processNewLines_monotone split: option.splits)

lemma blank_line_skipped: "processLine parse st [] = st"
  by (simp add: processLine_def forwardOf_def isBlank_def)

lemma onTimer_rotation:
  assumes "rotates files st" and "findLatestSessionFile files = Some filePath"
    and "fs filePath = Some content"
  shows "onTimer parse files fs st
         = foldl (processLine parse)
             (st\<lparr>currentSessionFile := Some filePath,
                filePositions := (filePositions st)(filePath \<mapsto> length content)\<rparr>)
             (splitLines content)"
proof (cases "content = []")
  case True
  with assms show ?thesis
    by (simp add: onTimer_def adoptLatest_def Let_def processNewLines_def lastPosition_def
        blank_line_skipped)
next
  case False
  with assms show ?thesis
    by (simp add: onTimer_def adoptLatest_def Let_def processNewLines_def lastPosition_def
        newLines_def)
qed

text \<open>
  C8. For a log file with content \<open>content\<close> at the time of the pass: (1) when the file
  has grown past the stored offset, the pass first stores the size as the new offset and
  then parses exactly the bytes from the old offset on; (2) when the file has not shrunk
  below the stored offset, the offset after the pass is the size, whatever the parser does
  with the lines; (3) a second pass over the same file reads nothing again, also with
  another parsing outcome; (4) no pass lowers any offset, and (5) neither does a timer
  callback that does not rotate; (6) a callback that rotates to the file parses all of its
  content from offset 0 and leaves its offset at the size.
\<close>

theorem tailer_offsets:
  assumes "fs filePath = Some content"
  shows "(lastPosition st filePath < length content \<longrightarrow>
            processNewLines parse fs filePath st
            = foldl (processLine parse)
                (st\<lparr>filePositions := (filePositions st)(filePath \<mapsto> length content)\<rparr>)
                (splitLines (drop (lastPosition st filePath) content)))
       \<and> (lastPosition st filePath \<le> length content \<longrightarrow>
            lastPosition (processNewLines parse fs filePath st) filePath = length content)
       \<and> processNewLines parse' fs filePath (processNewLines parse fs filePath st)
         = processNewLines parse fs filePath st
       \<and> lastPosition st p \<le> lastPosition (processNewLines parse fs filePath st) p
       \<and> (\<not> rotates files st \<longrightarrow>
            lastPosition st p \<le> lastPosition (onTimer parse files fs st) p)
       \<and> (rotates files st \<and> findLatestSessionFile files = Some filePath \<longrightarrow>
            onTimer parse files fs st
            = foldl (processLine parse)
                (st\<lparr>currentSessionFile := Some filePath,
                   filePositions := (filePositions st)(filePath \<mapsto> length content)\<rparr>)
                (splitLines content)
            \<and> lastPosition (onTimer parse files fs st) filePath = length content)"
proof (intro conjI impI)
  assume "lastPosition st filePath < length content"
  with assms show "processNewLines parse fs filePath st
            = foldl (processLine parse)
                (st\<lparr>filePositions := (filePositions st)(filePath \<mapsto> length content)\<rparr>)
                (splitLines (drop (lastPosition st filePath) content))"
    by (rule processNewLines_reads_new_bytes)
next
  assume "lastPosition st filePath \<le> length content"
  with assms show "lastPosition (processNewLines parse fs filePath st) filePath = length content"
    by (simp add: processNewLines_position)
next
  show "processNewLines parse' fs filePath (processNewLines parse fs filePath st)
         = processNewLines parse fs filePath st"
    using assms by (rule processNewLines_again)
next
  show "lastPosition st p \<le> lastPosition (processNewLines parse fs filePath st) p"
    by (rule processNewLines_monotone)
next
  assume "\<not> rotates files st"
  then show "lastPosition st p \<le> lastPosition (onTimer parse files fs st) p"
    by (rule onTimer_no_rotation)
next
  assume r: "rotates files st \<and> findLatestSessionFile files = Some filePath"
  then show eq: "onTimer parse files fs st
            = foldl (processLine parse)
                (st\<lparr>currentSessionFile := Some filePath,
                   filePositions := (filePositions st)(filePath \<mapsto> length content)\<rparr>)
                (splitLines content)"
    using assms by (simp add: onTimer_rotation)
  show "lastPosition (onTimer parse files fs st) filePath = length content"
    by (simp add: eq foldl_processLine_fields lastPosition_def)
qed

theorem tailer_offsets_witness:
  "lastPosition watching ''a.jsonl'' = 0
   \<and> lastPosition (processNewLines demoParse logA ''a.jsonl'' watching) ''a.jsonl'' = 2
   \<and> processNewLines (\<lambda>l. Unparsable) logA ''a.jsonl''
       (processNewLines demoParse logA ''a.jsonl'' watching)
     = processNewLines demoParse logA ''a.jsonl'' watching
   \<and> rotates [(''a.jsonl'', 2)] t_init
   \<and> onTimer demoParse [(''a.jsonl'', 2)] logA t_init
     = foldl (processLine demoParse)
         (t_init\<lparr>currentSessionFile := Some ''a.jsonl'',
            filePositions := (filePositions t_init)(''a.jsonl'' \<mapsto> 2)\<rparr>)
         (splitLines [CHR ''x'', CHR 0x0A])
   \<and> lastPosition (onTimer demoParse [(''a.jsonl'', 2)] logA t_init) ''a.jsonl'' = 2"
proof -
  have f: "logA ''a.jsonl'' = Some [CHR ''x'', CHR 0x0A]" by (simp add: logA_def)
  have p0: "lastPosition watching ''a.jsonl'' = 0"
    by (simp add: watching_def watchProject_def latest_a lastPosition_def)
  have r: "rotates [(''a.jsonl'', 2)] t_init"
    by (simp add: rotates_def latest_a t_init_def)
  note first = tailer_offsets
    [where fs = logA and filePath = "''a.jsonl''" and content = "[CHR ''x'', CHR 0x0A]"
       and st = watching and parse = demoParse and parse' = "\<lambda>l. Unparsable"
       and p = "''a.jsonl''" and files = "[]", OF f]
  note second = tailer_offsets
    [where fs = logA and filePath = "''a.jsonl''" and content = "[CHR ''x'', CHR 0x0A]"
       and st = t_init and parse = demoParse and parse' = demoParse
       and p = "''a.jsonl''" and files = "[(''a.jsonl'', 2)]", OF f]
  have len: "length [CHR ''x'', CHR 0x0A] = 2" by simp
  from first [THEN conjunct2, THEN conjunct1] p0
  have A: "lastPosition (processNewLines demoParse logA ''a.jsonl'' watching) ''a.jsonl'' = 2"
    by simp
  note B = first [THEN conjunct2, THEN conjunct2, THEN conjunct1]
  from second [THEN conjunct2, THEN conjunct2, THEN conjunct2, THEN conjunct2, THEN conjunct2]
    r latest_a [of 2]
  have C: "onTimer demoParse [(''a.jsonl'', 2)] logA t_init
     = foldl (processLine demoParse)
         (t_init\<lparr>currentSessionFile := Some ''a.jsonl'',
            filePositions := (filePositions t_init)
              (''a.jsonl'' \<mapsto> length [CHR ''x'', CHR 0x0A])\<rparr>)
         (splitLines [CHR ''x'', CHR 0x0A])
     \<and> lastPosition (onTimer demoParse [(''a.jsonl'', 2)] logA t_init) ''a.jsonl''
       = length [CHR ''x'', CHR 0x0A]"
    by blast
  from C have C1: "onTimer demoParse [(''a.jsonl'', 2)] logA t_init
     = foldl (processLine demoParse)
         (t_init\<lparr>currentSessionFile := Some ''a.jsonl'',
            filePositions := (filePositions t_init)(''a.jsonl'' \<mapsto> 2)\<rparr>)
         (splitLines [CHR ''x'', CHR 0x0A])"
    and C2: "lastPosition (onTimer demoParse [(''a.jsonl'', 2)] logA t_init) ''a.jsonl'' = 2"
    unfolding len by blast+
  from p0 A B r C1 C2 show ?thesis by blast
qed

section \<open>Properties of the debounce\<close>

lemma jsonl_nonempty: "suffix ''.jsonl'' name \<Longrightarrow> name \<noteq> []"
  by auto

lemma burst_keeps_timer_pending:
  assumes "list_all (\<lambda>gap. gap < DEBOUNCE_MS) gaps" and "suffix ''.jsonl'' name"
  shows "w_run (burst name gaps) w
         = w\<lparr>now := now w + sum_list gaps,
             debounceTimer := Some (now w + sum_list gaps + DEBOUNCE_MS)\<rparr>"
  using assms(1)
proof (induction gaps arbitrary: w)
  case Nil
  from assms(2) show ?case
    by (simp add: w_run_def onNotify_def jsonl_nonempty)
next
  case (Cons gap gaps)
  from Cons.prems have gap: "gap < DEBOUNCE_MS" and rest: "list_all (\<lambda>gap. gap < DEBOUNCE_MS) gaps"
    by simp_all
  let ?w1 = "w\<lparr>now := now w + gap, debounceTimer := Some (now w + DEBOUNCE_MS)\<rparr>"
  have one: "elapse gap (onNotify (Some name) w) = ?w1"
    using gap assms(2) by (simp add: onNotify_def elapse_def jsonl_nonempty)
  have "w_run (burst name (gap # gaps)) w = w_run (burst name gaps) ?w1"
    by (simp add: w_run_def one)
  also have "\<dots> = ?w1\<lparr>now := now ?w1 + sum_list gaps,
                       debounceTimer := Some (now ?w1 + sum_list gaps + DEBOUNCE_MS)\<rparr>"
    by (rule Cons.IH [OF rest])
  also have "\<dots> = w\<lparr>now := now w + sum_list (gap # gaps),
                      debounceTimer := Some (now w + sum_list (gap # gaps) + DEBOUNCE_MS)\<rparr>"
    by (simp add: add.assoc)
  finally show ?case .
qed

lemma gaps_in_window:
  "sum_list gaps < DEBOUNCE_MS \<Longrightarrow> list_all (\<lambda>gap. gap < DEBOUNCE_MS) gaps"
proof (induction gaps)
  case Nil
  show ?case by simp
next
  case (Cons gap gaps)
  then show ?case by simp
qed

lemma w_run_append: "w_run (evs @ evs') w = w_run evs' (w_run evs w)"
  by (simp add: w_run_def)

text \<open>
  C9. \<open>length gaps + 1\<close> notifications for a \<^verbatim>\<open>.jsonl\<close> file arrive within one window
  of \<^verbatim>\<open>DEBOUNCE_MS\<close> milliseconds: no read-pass runs during the burst, each notification
  leaves exactly one timeout pending, and once the window after the last notification has
  elapsed exactly one read-pass has run, at the last notification's time plus
  \<^verbatim>\<open>DEBOUNCE_MS\<close>; whatever time elapses afterwards, at most one has run.
\<close>

theorem debounce_burst_one_pass:
  assumes "sum_list gaps < DEBOUNCE_MS" and "suffix ''.jsonl'' name"
  shows "readPasses (w_run (burst name gaps) w) = readPasses w
       \<and> debounceTimer (w_run (burst name gaps) w) = Some (now w + sum_list gaps + DEBOUNCE_MS)
       \<and> (DEBOUNCE_MS \<le> rest \<longrightarrow>
            readPasses (w_run (burst name gaps @ [Elapse rest]) w)
            = readPasses w @ [now w + sum_list gaps + DEBOUNCE_MS])
       \<and> length (readPasses (w_run (burst name gaps @ [Elapse rest]) w))
         \<le> length (readPasses w) + 1"
proof -
  have b: "w_run (burst name gaps) w
         = w\<lparr>now := now w + sum_list gaps,
             debounceTimer := Some (now w + sum_list gaps + DEBOUNCE_MS)\<rparr>"
    by (rule burst_keeps_timer_pending [OF gaps_in_window [OF assms(1)] assms(2)])
  have e: "w_run (burst name gaps @ [Elapse rest]) w = elapse rest (w_run (burst name gaps) w)"
    by (simp add: w_run_append) (simp add: w_run_def)
  show ?thesis
    by (simp add: e b elapse_def)
qed

theorem debounce_burst_one_pass_witness:
  "sum_list [10, 20, 30] < DEBOUNCE_MS
   \<and> readPasses (w_run (burst ''s.jsonl'' [10, 20, 30]) w_init) = []
   \<and> readPasses (w_run (burst ''s.jsonl'' [10, 20, 30] @ [Elapse 100]) w_init) = [160]"
proof -
  have s: "sum_list [10, 20, 30] < DEBOUNCE_MS" by (simp add: DEBOUNCE_MS_def)
  have n: "suffix ''.jsonl'' ''s.jsonl''" by (simp add: suffix_def)
  have r: "DEBOUNCE_MS \<le> 100" by (simp add: DEBOUNCE_MS_def)
  from debounce_burst_one_pass [OF s n, of w_init 100] s r
  show ?thesis by (simp add: w_init_def DEBOUNCE_MS_def)
qed

end
